theory Spec2Isabelle
  imports Complex_Main "HOL-Library.AList" "HOL-Library.Multiset"
    "HOL-Library.Product_Lexorder"
begin

section \<open>Python primitives used by the chunker and the index\<close>

text \<open>
  Strings are lists of characters, one \<^typ>\<open>char\<close> per code point below 256.
  \<open>str.isspace\<close> on that range is true of TAB..CR, FS..US, SPACE, NEL and NBSP.
\<close>

definition isspace :: "char \<Rightarrow> bool" where
  "isspace c =
     (let n = (of_char c :: nat)
      in (9 \<le> n \<and> n \<le> 13) \<or> (28 \<le> n \<and> n \<le> 32) \<or> n = 133 \<or> n = 160)"

text \<open>\<open>s.strip()\<close>: drop the whitespace at both ends.\<close>

definition strip :: "string \<Rightarrow> string" where
  "strip s = rev (dropWhile isspace (rev (dropWhile isspace s)))"

text \<open>\<open>s.split()\<close>: the maximal runs of non-whitespace characters.\<close>

fun split_from :: "string \<Rightarrow> string \<Rightarrow> string list" where
  "split_from cur [] = (if cur = [] then [] else [cur])"
| "split_from cur (c # cs) =
     (if isspace c then (if cur = [] then [] else [cur]) @ split_from [] cs
      else split_from (cur @ [c]) cs)"

definition split :: "string \<Rightarrow> string list" where
  "split s = split_from [] s"

text \<open>
  A slice bound of Python: a negative bound counts from the end, and the result is
  clamped to \<open>0..len\<close>.
\<close>

definition slice_bound :: "int \<Rightarrow> int \<Rightarrow> int" where
  "slice_bound n i = (if i < 0 then max 0 (i + n) else min i n)"

definition py_slice :: "'a list \<Rightarrow> int \<Rightarrow> int \<Rightarrow> 'a list" where
  "py_slice xs lo hi =
     (let n = int (length xs); l = slice_bound n lo; h = slice_bound n hi
      in take (nat (h - l)) (drop (nat l) xs))"

text \<open>
  \<open>xs[:k]\<close>: the first \<open>k\<close> elements, and for a negative \<open>k\<close> all but the last
  \<open>-k\<close>.
\<close>

definition py_prefix :: "'a list \<Rightarrow> int \<Rightarrow> 'a list" where
  "py_prefix xs k = py_slice xs 0 k"

text \<open>
  \<open>text.rfind(sub, start, end)\<close>: the highest position \<open>i\<close> with
  \<open>start \<le> i\<close>, \<open>i + len(sub) \<le> end\<close> and \<open>text[i:i+len(sub)] = sub\<close>, or \<open>-1\<close>.
  The end bound is clamped to the length; the start bound is only lifted to 0.
\<close>

definition rfind :: "string \<Rightarrow> string \<Rightarrow> int \<Rightarrow> int \<Rightarrow> int" where
  "rfind text sub start stop =
     (let n = int (length text);
          e = slice_bound n stop;
          s = (if start < 0 then max 0 (start + n) else start);
          m = length sub;
          hits = filter (\<lambda>i. take m (drop (nat i) text) = sub) [s..e - int m]
      in if hits = [] then -1 else last hits)"

text \<open>\<open>str(n)\<close> for an integer: decimal digits, with a sign.\<close>

fun str_nat :: "nat \<Rightarrow> string" where
  "str_nat n =
     (if n < 10 then [''0123456789'' ! n]
      else str_nat (n div 10) @ [''0123456789'' ! (n mod 10)])"

declare str_nat.simps [simp del]

definition str_int :: "int \<Rightarrow> string" where
  "str_int i = (if i < 0 then CHR ''-'' # str_nat (nat (- i)) else str_nat (nat i))"

section \<open>chunker.py\<close>

record chunk =
  c_id :: string
  c_doc_id :: string
  c_text :: string
  c_index :: int
  c_start_char :: int
  c_end_char :: int
  c_metadata :: "(string \<times> int) list"

datatype error = ValueError string | KeyError string | IndexError | ZeroDivisionError
  | EmbeddingFailure

text \<open>
  The chunk id is the first 12 characters of the SHA-256 hex digest of
  \<open>doc_id:index:start\<close>. The digest is a library function and is a parameter here.
\<close>

definition chunk_id :: "(string \<Rightarrow> string) \<Rightarrow> string \<Rightarrow> int \<Rightarrow> int \<Rightarrow> string" where
  "chunk_id sha256_hex doc_id index start =
     take 12 (sha256_hex (doc_id @ '':'' @ str_int index @ '':'' @ str_int start))"

text \<open>Lines 57-64: the end of the window that starts at \<open>start\<close>.\<close>

definition window_end :: "string \<Rightarrow> string \<Rightarrow> int \<Rightarrow> int \<Rightarrow> int" where
  "window_end text separator start chunk_size =
     (let end_pos = start + chunk_size
      in if end_pos < int (length text) then
           (let last_sep = rfind text separator start end_pos
            in if last_sep > start then last_sep + int (length separator) else end_pos)
         else end_pos)"

text \<open>Lines 69-84: the chunk that is appended for a non-empty trimmed window.\<close>

definition new_chunk ::
  "(string \<Rightarrow> string) \<Rightarrow> string \<Rightarrow> string \<Rightarrow> int \<Rightarrow> int \<Rightarrow> int \<Rightarrow> chunk" where
  "new_chunk sha256_hex doc_id content index start end_pos =
     \<lparr> c_id = chunk_id sha256_hex doc_id index start,
       c_doc_id = doc_id,
       c_text = content,
       c_index = index,
       c_start_char = start,
       c_end_char = end_pos,
       c_metadata = [(''chunk_size'', int (length content)),
                     (''word_count'', int (length (split content)))] \<rparr>"

text \<open>
  Lines 56-93: the cursor loop. It need not return, so its result is an option, and
  \<open>None\<close> is the loop that runs forever.
\<close>

partial_function (option) chunk_loop ::
  "(string \<Rightarrow> string) \<Rightarrow> string \<Rightarrow> string \<Rightarrow> int \<Rightarrow> int \<Rightarrow> string
     \<Rightarrow> chunk list \<Rightarrow> int \<Rightarrow> int \<Rightarrow> chunk list option" where
  "chunk_loop sha256_hex text doc_id chunk_size overlap separator chunks start index =
     (if start < int (length text) then
        (let end_pos = window_end text separator start chunk_size;
             content = strip (py_slice text start end_pos);
             chunks' = (if content \<noteq> []
                        then chunks @ [new_chunk sha256_hex doc_id content index start end_pos]
                        else chunks);
             index' = (if content \<noteq> [] then index + 1 else index);
             start' = end_pos - overlap
         in if start' \<ge> int (length text) then Some chunks'
            else chunk_loop sha256_hex text doc_id chunk_size overlap separator chunks'
                   (if (if chunks' \<noteq> [] then start' \<le> c_start_char (last chunks')
                        else start' \<le> 0)
                    then end_pos else start')
                   index')
      else Some chunks)"

declare chunk_loop.simps [code]

text \<open>
  \<open>chunk_text\<close>: \<open>None\<close> when the loop does not return, \<open>Some (Inl e)\<close> when the call
  raises \<open>e\<close>, \<open>Some (Inr chunks)\<close> when it returns \<open>chunks\<close>.
\<close>

definition chunk_text ::
  "(string \<Rightarrow> string) \<Rightarrow> string \<Rightarrow> string \<Rightarrow> int \<Rightarrow> int \<Rightarrow> string
     \<Rightarrow> (error + chunk list) option" where
  "chunk_text sha256_hex text doc_id chunk_size overlap separator =
     (if strip text = [] then Some (Inr [])
      else if chunk_size \<le> 0 then Some (Inl (ValueError ''chunk_size must be positive''))
      else if overlap < 0 then Some (Inl (ValueError ''overlap must be non-negative''))
      else if overlap \<ge> chunk_size
        then Some (Inl (ValueError ''overlap must be less than chunk_size''))
      else map_option Inr
             (chunk_loop sha256_hex text doc_id chunk_size overlap separator [] 0 0))"

text \<open>
  \<open>chunk_by_pages\<close>, lines 118-133: the pages in order, \<open>page_num\<close> counting from 0.
  A page's chunks get the page number (from 1) in their metadata and the outer
  \<open>doc_id\<close>. The separator is the default of \<open>chunk_text\<close>, a newline.
\<close>

fun pages_loop ::
  "(string \<Rightarrow> string) \<Rightarrow> string \<Rightarrow> int \<Rightarrow> int \<Rightarrow> string list \<Rightarrow> nat \<Rightarrow> chunk list
     \<Rightarrow> (error + chunk list) option" where
  "pages_loop sha256_hex doc_id chunk_size overlap [] page_num all_chunks =
     Some (Inr all_chunks)"
| "pages_loop sha256_hex doc_id chunk_size overlap (page_text # pages) page_num all_chunks =
     (if strip page_text = []
      then pages_loop sha256_hex doc_id chunk_size overlap pages (page_num + 1) all_chunks
      else
        (case chunk_text sha256_hex page_text (doc_id @ ''_p'' @ str_nat page_num)
                chunk_size overlap [CHR 0x0A] of
           None \<Rightarrow> None
         | Some (Inl e) \<Rightarrow> Some (Inl e)
         | Some (Inr page_chunks) \<Rightarrow>
             pages_loop sha256_hex doc_id chunk_size overlap pages (page_num + 1)
               (all_chunks @
                map (\<lambda>c. c\<lparr>c_metadata :=
                               AList.update ''page'' (int page_num + 1) (c_metadata c),
                            c_doc_id := doc_id\<rparr>)
                  page_chunks)))"

text \<open>Lines 136-137: the re-indexing of the combined list.\<close>

definition reindex :: "chunk list \<Rightarrow> chunk list" where
  "reindex all_chunks = map (\<lambda>(i, c). c\<lparr>c_index := int i\<rparr>) (enumerate 0 all_chunks)"

definition chunk_by_pages ::
  "(string \<Rightarrow> string) \<Rightarrow> string list \<Rightarrow> string \<Rightarrow> int \<Rightarrow> int \<Rightarrow> (error + chunk list) option"
  where
  "chunk_by_pages sha256_hex pages doc_id chunk_size overlap =
     map_option (map_sum (\<lambda>e. e) reindex)
       (pages_loop sha256_hex doc_id chunk_size overlap pages 0 [])"

text \<open>
  The reading of the chunk id that derives it from the fields of the chunk itself.
\<close>

definition id_from_own_fields :: "(string \<Rightarrow> string) \<Rightarrow> chunk \<Rightarrow> bool" where
  "id_from_own_fields sha256_hex c =
     (c_id c = chunk_id sha256_hex (c_doc_id c) (c_index c) (c_start_char c))"

text \<open>
  The chunk \<open>c\<close> that \<open>chunk_by_pages\<close> makes, before the re-indexing, from a chunk \<open>c0\<close>
  that \<open>chunk_text\<close> returned on the page numbered \<open>page_num\<close> (from 0).
\<close>

definition from_page ::
  "(string \<Rightarrow> string) \<Rightarrow> string \<Rightarrow> int \<Rightarrow> int \<Rightarrow> string \<Rightarrow> nat \<Rightarrow> chunk \<Rightarrow> chunk \<Rightarrow> bool" where
  "from_page sha256_hex doc_id chunk_size overlap page_text page_num c0 c =
     ((\<exists>page_chunks.
         chunk_text sha256_hex page_text (doc_id @ ''_p'' @ str_nat page_num) chunk_size overlap
           [CHR 0x0A] = Some (Inr page_chunks) \<and> c0 \<in> set page_chunks) \<and>
      c = c0\<lparr>c_metadata := AList.update ''page'' (int page_num + 1) (c_metadata c0),
             c_doc_id := doc_id\<rparr>)"

section \<open>Python floats\<close>

text \<open>
  A float is a finite number, an infinity or NaN; the two zeros are one value.
\<close>

datatype pyfloat = Finite real | PosInf | NegInf | NaN

text \<open>
  The least positive float \<open>2^(-1074)\<close>, its half, its square root, and the bound
  \<open>2^1024\<close> that no finite float reaches.
\<close>

definition tiny :: real where "tiny = 1 / 2 ^ 1074"
definition half_tiny :: real where "half_tiny = 1 / 2 ^ 1075"
definition root_tiny :: real where "root_tiny = 1 / 2 ^ 537"
definition huge :: real where "huge = 2 ^ 1024"

text \<open>
  The rounding of a real number to the nearest float, with the exponent taken unbounded
  above, is a parameter. What is used of it holds of IEEE 754 rounding to nearest: it is
  monotone and odd, it keeps \<open>2^(-537)\<close>, which is a float, and a number above half the
  least positive float is rounded to that float at least.
\<close>

typedef rounding =
  "{r :: real \<Rightarrow> real.
      mono r \<and> (\<forall>x. r (- x) = - r x) \<and> r root_tiny = root_tiny \<and>
      (\<forall>x. half_tiny < x \<longrightarrow> tiny \<le> r x)}"
proof
  show "(\<lambda>x. if 0 < x \<and> x < tiny then tiny else if - tiny < x \<and> x < 0 then - tiny else x)
     \<in> {r :: real \<Rightarrow> real.
      mono r \<and> (\<forall>x. r (- x) = - r x) \<and> r root_tiny = root_tiny \<and>
      (\<forall>x. half_tiny < x \<longrightarrow> tiny \<le> r x)}"
    by (auto simp: mono_def tiny_def half_tiny_def root_tiny_def)
qed

setup_lifting type_definition_rounding

text \<open>The rounding that changes only the numbers below the least positive float.\<close>

lift_definition plain_rounding :: rounding is
  "\<lambda>x. if 0 < x \<and> x < tiny then tiny else if - tiny < x \<and> x < 0 then - tiny else x"
  by (auto simp: mono_def tiny_def half_tiny_def root_tiny_def)

text \<open>
  The float of an exact result: an infinity from \<open>2^1024\<close> on, zero up to half the least
  positive float, and the rounded number between, again an infinity when the rounding
  reaches \<open>2^1024\<close>.
\<close>

definition signed_inf :: "real \<Rightarrow> pyfloat" where
  "signed_inf x = (if 0 < x then PosInf else NegInf)"

definition to_float :: "rounding \<Rightarrow> real \<Rightarrow> pyfloat" where
  "to_float r x =
     (if huge \<le> \<bar>x\<bar> then signed_inf x
      else if \<bar>x\<bar> \<le> half_tiny then Finite 0
      else if huge \<le> \<bar>Rep_rounding r x\<bar> then signed_inf x
      else Finite (Rep_rounding r x))"

text \<open>\<open>x * y\<close>, \<open>x + y\<close> on floats: they raise nothing.\<close>

fun fmul :: "rounding \<Rightarrow> pyfloat \<Rightarrow> pyfloat \<Rightarrow> pyfloat" where
  "fmul r NaN y = NaN"
| "fmul r x NaN = NaN"
| "fmul r (Finite a) (Finite b) = to_float r (a * b)"
| "fmul r (Finite a) y = (if a = 0 then NaN else if (0 < a) = (y = PosInf) then PosInf else NegInf)"
| "fmul r x (Finite b) = (if b = 0 then NaN else if (0 < b) = (x = PosInf) then PosInf else NegInf)"
| "fmul r x y = (if x = y then PosInf else NegInf)"

fun fadd :: "rounding \<Rightarrow> pyfloat \<Rightarrow> pyfloat \<Rightarrow> pyfloat" where
  "fadd r NaN y = NaN"
| "fadd r x NaN = NaN"
| "fadd r (Finite a) (Finite b) = to_float r (a + b)"
| "fadd r (Finite a) y = y"
| "fadd r x (Finite b) = x"
| "fadd r x y = (if x = y then x else NaN)"

text \<open>
  \<open>x / y\<close> on floats raises \<open>ZeroDivisionError\<close> when \<open>y\<close> is zero, whatever \<open>x\<close> is.
\<close>

fun fdiv :: "rounding \<Rightarrow> pyfloat \<Rightarrow> pyfloat \<Rightarrow> error + pyfloat" where
  "fdiv r x (Finite b) =
     (if b = 0 then Inl ZeroDivisionError
      else
        (case x of
           Finite a \<Rightarrow> Inr (to_float r (a / b))
         | NaN \<Rightarrow> Inr NaN
         | PosInf \<Rightarrow> Inr (if 0 < b then PosInf else NegInf)
         | NegInf \<Rightarrow> Inr (if 0 < b then NegInf else PosInf)))"
| "fdiv r NaN y = Inr NaN"
| "fdiv r x NaN = Inr NaN"
| "fdiv r (Finite a) y = Inr (Finite 0)"
| "fdiv r x y = Inr NaN"

text \<open>\<open>math.sqrt\<close>: a negative argument raises \<open>ValueError\<close>.\<close>

fun fsqrt :: "rounding \<Rightarrow> pyfloat \<Rightarrow> error + pyfloat" where
  "fsqrt r (Finite a) =
     (if a < 0 then Inl (ValueError ''math domain error'') else Inr (to_float r (sqrt a)))"
| "fsqrt r PosInf = Inr PosInf"
| "fsqrt r NegInf = Inl (ValueError ''math domain error'')"
| "fsqrt r NaN = Inr NaN"

text \<open>
  \<open>sum\<close> of floats: from 0, left to right, each partial sum rounded. (CPython from 3.12 on
  also carries the rounding errors of the partial sums along; the statements below are
  about overflow, underflow and partial sums that are exact, where this makes no
  difference.)
\<close>

definition fsum :: "rounding \<Rightarrow> pyfloat list \<Rightarrow> pyfloat" where
  "fsum r xs = foldl (fadd r) (Finite 0) xs"

text \<open>\<open>_cosine_similarity\<close>, search.py lines 141-149, on lists of floats.\<close>

definition cosine_similarity :: "rounding \<Rightarrow> pyfloat list \<Rightarrow> pyfloat list \<Rightarrow> error + pyfloat" where
  "cosine_similarity r a b =
     (let dot = fsum r (map (\<lambda>(x, y). fmul r x y) (zip a b))
      in case fsqrt r (fsum r (map (\<lambda>x. fmul r x x) a)) of
           Inl e \<Rightarrow> Inl e
         | Inr norm_a \<Rightarrow>
             (case fsqrt r (fsum r (map (\<lambda>x. fmul r x x) b)) of
                Inl e \<Rightarrow> Inl e
              | Inr norm_b \<Rightarrow>
                  if norm_a = Finite 0 \<or> norm_b = Finite 0 then Inr (Finite 0)
                  else fdiv r dot (fmul r norm_a norm_b)))"

section \<open>search.py\<close>

text \<open>
  The embedding service is a parameter: a function from the texts and the input type
  to the vectors, or to an error. The index is written for vectors of any type \<open>'v\<close>;
  \<open>search\<close> reads them as lists of floats.
\<close>

record search_result =
  r_chunk :: chunk
  r_score :: pyfloat

datatype input_type = search_document | search_query

type_synonym 'v embedder = "string list \<Rightarrow> input_type \<Rightarrow> error + 'v list"

text \<open>
  The dictionaries of the index keep insertion order, which \<open>search\<close> and
  \<open>list_documents\<close> read: they are association lists, written with \<^const>\<open>AList.update\<close>
  (a new key goes to the end, a known key keeps its place) and \<^const>\<open>AList.delete\<close>.
\<close>

record 'v document_index =
  idx_chunks :: "(string \<times> chunk) list"
  idx_embeddings :: "(string \<times> 'v) list"
  idx_doc_chunks :: "(string \<times> string list) list"

definition empty_index :: "'v document_index" where
  "empty_index = \<lparr> idx_chunks = [], idx_embeddings = [], idx_doc_chunks = [] \<rparr>"

text \<open>Lines 59-61: the chunk id is appended to the list of its document.\<close>

definition append_doc_chunk ::
  "string \<Rightarrow> string \<Rightarrow> (string \<times> string list) list \<Rightarrow> (string \<times> string list) list" where
  "append_doc_chunk doc_id cid doc_chunks =
     (let doc_chunks' = (if map_of doc_chunks doc_id = None
                         then AList.update doc_id [] doc_chunks else doc_chunks)
      in case map_of doc_chunks' doc_id of
           None \<Rightarrow> doc_chunks'
         | Some ids \<Rightarrow> AList.update doc_id (ids @ [cid]) doc_chunks')"

text \<open>Lines 55-61: the loop over the chunks zipped with their embeddings.\<close>

fun add_pairs :: "'v document_index \<Rightarrow> (chunk \<times> 'v) list \<Rightarrow> 'v document_index" where
  "add_pairs s [] = s"
| "add_pairs s ((chunk, embedding) # rest) =
     add_pairs
       (s\<lparr>idx_chunks := AList.update (c_id chunk) chunk (idx_chunks s),
          idx_embeddings := AList.update (c_id chunk) embedding (idx_embeddings s),
          idx_doc_chunks := append_doc_chunk (c_doc_id chunk) (c_id chunk) (idx_doc_chunks s)\<rparr>)
       rest"

definition add_chunks ::
  "'v embedder \<Rightarrow> 'v document_index \<Rightarrow> chunk list \<Rightarrow> error + ('v document_index \<times> nat)" where
  "add_chunks embed_texts s chunks =
     (if chunks = [] then Inr (s, 0)
      else
        (case embed_texts (map c_text chunks) search_document of
           Inl e \<Rightarrow> Inl e
         | Inr embeddings \<Rightarrow> Inr (add_pairs s (zip chunks embeddings), length chunks)))"

text \<open>Lines 85-88: the candidates, where an empty \<open>doc_id\<close> is false as \<open>None\<close> is.\<close>

definition candidate_ids :: "'v document_index \<Rightarrow> string option \<Rightarrow> string list" where
  "candidate_ids s doc_id =
     (case doc_id of
        None \<Rightarrow> map fst (idx_chunks s)
      | Some d \<Rightarrow>
          (if d \<noteq> [] then
             (case map_of (idx_doc_chunks s) d of
                Some ids \<Rightarrow> ids
              | None \<Rightarrow> map fst (idx_chunks s))
           else map fst (idx_chunks s)))"

text \<open>
  Lines 94-104: the scored candidates in the order they are met. The score is computed
  first; then reading the chunk of an id that has an embedding and no chunk raises
  \<open>KeyError\<close>.
\<close>

fun score_candidates ::
  "rounding \<Rightarrow> pyfloat list document_index \<Rightarrow> pyfloat list \<Rightarrow> string list
     \<Rightarrow> error + search_result list" where
  "score_candidates r s query_embedding [] = Inr []"
| "score_candidates r s query_embedding (cid # rest) =
     (case map_of (idx_embeddings s) cid of
        None \<Rightarrow> score_candidates r s query_embedding rest
      | Some embedding \<Rightarrow>
          (case cosine_similarity r query_embedding embedding of
             Inl e \<Rightarrow> Inl e
           | Inr score \<Rightarrow>
               (case map_of (idx_chunks s) cid of
                  None \<Rightarrow> Inl (KeyError cid)
                | Some c \<Rightarrow>
                    (case score_candidates r s query_embedding rest of
                       Inl e \<Rightarrow> Inl e
                     | Inr results \<Rightarrow> Inr (\<lparr> r_chunk = c, r_score = score \<rparr> # results)))))"

text \<open>
  \<open>results.sort(key=lambda r: r.score, reverse=True)\<close> compares the scores with \<open><\<close>,
  which is false whenever an operand is NaN. \<open>fle\<close> is \<open><=\<close> on floats, and \<open>rank\<close> maps the
  floats other than NaN into a linear order that agrees with it.
\<close>

fun fle :: "pyfloat \<Rightarrow> pyfloat \<Rightarrow> bool" where
  "fle NaN y = False"
| "fle x NaN = False"
| "fle NegInf y = True"
| "fle x PosInf = True"
| "fle (Finite a) (Finite b) = (a \<le> b)"
| "fle x y = False"

fun rank :: "pyfloat \<Rightarrow> int \<times> real" where
  "rank NegInf = (- 1, 0)"
| "rank (Finite x) = (0, x)"
| "rank PosInf = (1, 0)"
| "rank NaN = (2, 0)"

text \<open>
  When no score is NaN the sort is the stable sort of Python, which for \<open>reverse\<close>
  sorts the reversed list and reverses the result. When a score is NaN the comparisons
  are those of no order, and what the list is afterwards depends on the sorting
  algorithm of the interpreter: it is a parameter, one of the functions that permute
  their argument. \<open>keep_order\<close> is the one that leaves every list as it is.
\<close>

typedef permuter =
  "{f :: search_result list \<Rightarrow> search_result list. \<forall>xs. mset (f xs) = mset xs}"
proof
  show "(\<lambda>xs. xs) \<in> {f :: search_result list \<Rightarrow> search_result list. \<forall>xs. mset (f xs) = mset xs}"
    by simp
qed

setup_lifting type_definition_permuter

lift_definition keep_order :: permuter is "\<lambda>xs. xs"
  by simp

definition sort_reverse :: "permuter \<Rightarrow> search_result list \<Rightarrow> search_result list" where
  "sort_reverse p results =
     (if NaN \<in> set (map r_score results) then Rep_permuter p results
      else rev (sort_key (\<lambda>x. rank (r_score x)) (rev results)))"

text \<open>Lines 82-107. The parameters: the embedding service, the rounding, the sort.\<close>

definition search ::
  "pyfloat list embedder \<Rightarrow> rounding \<Rightarrow> permuter \<Rightarrow> pyfloat list document_index \<Rightarrow> string
     \<Rightarrow> string option \<Rightarrow> int \<Rightarrow> error + search_result list" where
  "search embed_texts r p s query doc_id top_k =
     (case embed_texts [query] search_query of
        Inl e \<Rightarrow> Inl e
      | Inr [] \<Rightarrow> Inl IndexError
      | Inr (query_embedding # _) \<Rightarrow>
          (if candidate_ids s doc_id = [] then Inr []
           else
             (case score_candidates r s query_embedding (candidate_ids s doc_id) of
                Inl e \<Rightarrow> Inl e
              | Inr results \<Rightarrow> Inr (py_prefix (sort_reverse p results) top_k))))"

text \<open>Lines 113-115: both dictionaries lose every chunk id of the list.\<close>

fun pop_chunks :: "'v document_index \<Rightarrow> string list \<Rightarrow> 'v document_index" where
  "pop_chunks s [] = s"
| "pop_chunks s (cid # rest) =
     pop_chunks
       (s\<lparr>idx_chunks := AList.delete cid (idx_chunks s),
          idx_embeddings := AList.delete cid (idx_embeddings s)\<rparr>)
       rest"

definition remove_document :: "'v document_index \<Rightarrow> string \<Rightarrow> 'v document_index" where
  "remove_document s doc_id =
     (case map_of (idx_doc_chunks s) doc_id of
        None \<Rightarrow> s
      | Some ids \<Rightarrow>
          (pop_chunks s ids)\<lparr>idx_doc_chunks := AList.delete doc_id (idx_doc_chunks s)\<rparr>)"

definition list_documents :: "'v document_index \<Rightarrow> (string \<times> nat) list" where
  "list_documents s = map (\<lambda>(doc_id, chunk_ids). (doc_id, length chunk_ids)) (idx_doc_chunks s)"

definition total_chunks :: "'v document_index \<Rightarrow> nat" where
  "total_chunks s = length (idx_chunks s)"

subsection \<open>Sequences of calls on one index\<close>

text \<open>
  A call of \<open>add_chunks\<close> comes with the embedding service as it answers at that call,
  so the service may answer differently, or fail, from one call to the next. A call
  that raises leaves the index as it was: the embedding call comes before the first
  write.
\<close>

datatype 'v index_op = Add "'v embedder" "chunk list" | Remove string

definition apply_op :: "'v document_index \<Rightarrow> 'v index_op \<Rightarrow> 'v document_index" where
  "apply_op s opn =
     (case opn of
        Add embed_texts chunks \<Rightarrow>
          (case add_chunks embed_texts s chunks of Inl e \<Rightarrow> s | Inr (s', n) \<Rightarrow> s')
      | Remove doc_id \<Rightarrow> remove_document s doc_id)"

definition run :: "'v index_op list \<Rightarrow> 'v document_index" where
  "run ops = foldl apply_op empty_index ops"

text \<open>An embedding service for tests: every text gets the same vector.\<close>

definition stub_embed :: "'v \<Rightarrow> 'v embedder" where
  "stub_embed v texts mode = Inr (replicate (length texts) v)"

definition plain_chunk :: "string \<Rightarrow> string \<Rightarrow> string \<Rightarrow> chunk" where
  "plain_chunk cid doc_id content =
     \<lparr> c_id = cid, c_doc_id = doc_id, c_text = content, c_index = 0,
       c_start_char = 0, c_end_char = int (length content), c_metadata = [] \<rparr>"

subsection \<open>Predicates and examples for the index\<close>

text \<open>The chunks that the calls of a sequence pass to \<open>add_chunks\<close>.\<close>

fun added :: "'v index_op list \<Rightarrow> chunk list" where
  "added [] = []"
| "added (Add embed_texts chunks # ops) = chunks @ added ops"
| "added (Remove doc_id # ops) = added ops"

text \<open>No chunk id is passed to \<open>add_chunks\<close> under two document ids.\<close>

definition ids_own_doc :: "'v index_op list \<Rightarrow> bool" where
  "ids_own_doc ops =
     (\<forall>c\<in>set (added ops). \<forall>c'\<in>set (added ops). c_id c = c_id c' \<longrightarrow> c_doc_id c = c_doc_id c')"

text \<open>The key sets of the three dictionaries.\<close>

definition chunk_keys :: "'v document_index \<Rightarrow> string set" where
  "chunk_keys s = set (map fst (idx_chunks s))"

definition embedding_keys :: "'v document_index \<Rightarrow> string set" where
  "embedding_keys s = set (map fst (idx_embeddings s))"

definition listed_ids :: "'v document_index \<Rightarrow> string set" where
  "listed_ids s = set (concat (map snd (idx_doc_chunks s)))"

text \<open>
  What every call keeps, on the three dictionaries read as maps: chunks and embeddings
  have the same keys, and a stored chunk is stored under its own id and listed under
  its own document.
\<close>

definition maps_inv ::
  "(string \<rightharpoonup> chunk) \<Rightarrow> (string \<rightharpoonup> 'v) \<Rightarrow> (string \<rightharpoonup> string list) \<Rightarrow> bool" where
  "maps_inv C E D =
     (dom C = dom E \<and>
      (\<forall>i c. C i = Some c \<longrightarrow>
         c_id c = i \<and> (\<exists>ids. D (c_doc_id c) = Some ids \<and> i \<in> set ids)))"

definition index_inv :: "'v document_index \<Rightarrow> bool" where
  "index_inv s =
     (distinct (map fst (idx_chunks s)) \<and>
      distinct (map fst (idx_doc_chunks s)) \<and>
      maps_inv (map_of (idx_chunks s)) (map_of (idx_embeddings s))
        (map_of (idx_doc_chunks s)))"

text \<open>
  What the calls keep when no chunk id has two documents: the stored chunks come from
  a set \<open>U\<close> of chunks, and an id listed under a document is the id of a stored chunk
  of that document.
\<close>

definition maps_listed ::
  "chunk set \<Rightarrow> (string \<rightharpoonup> chunk) \<Rightarrow> (string \<rightharpoonup> string list) \<Rightarrow> bool" where
  "maps_listed U C D =
     ((\<forall>i c. C i = Some c \<longrightarrow> c \<in> U) \<and>
      (\<forall>d ids. D d = Some ids \<longrightarrow>
         (\<forall>i\<in>set ids. \<exists>c. C i = Some c \<and> c_doc_id c = d)))"

definition listed_inv :: "chunk set \<Rightarrow> 'v document_index \<Rightarrow> bool" where
  "listed_inv U s = maps_listed U (map_of (idx_chunks s)) (map_of (idx_doc_chunks s))"

text \<open>The chunks of a call of the chunker that returns, and none otherwise.\<close>

definition returned :: "(error + chunk list) option \<Rightarrow> chunk list" where
  "returned r = (case r of Some (Inr chunks) \<Rightarrow> chunks | _ \<Rightarrow> [])"

text \<open>
  The floats that a sum of squares can be: zero, at least the least positive float,
  the positive infinity or NaN. And the floats that its square root can be.
\<close>

definition settled :: "pyfloat \<Rightarrow> bool" where
  "settled f = (case f of Finite v \<Rightarrow> v = 0 \<or> tiny \<le> v | NegInf \<Rightarrow> False | _ \<Rightarrow> True)"

definition strong :: "pyfloat \<Rightarrow> bool" where
  "strong f = (case f of Finite v \<Rightarrow> v = 0 \<or> root_tiny \<le> v | NegInf \<Rightarrow> False | _ \<Rightarrow> True)"

text \<open>An operation with the exact result \<open>x\<close> is exact: no rounding, overflow or underflow.\<close>

definition exact :: "rounding \<Rightarrow> real \<Rightarrow> bool" where
  "exact r x = (to_float r x = Finite x)"

text \<open>
  Two floats for the examples: the square of \<open>big\<close> is no finite float, the square of
  \<open>small\<close> is below half the least positive float.
\<close>

definition big :: real where "big = 2 ^ 700"
definition small :: real where "small = 1 / 2 ^ 600"

text \<open>The dot product and the magnitude of vectors of real numbers.\<close>

definition dot :: "real list \<Rightarrow> real list \<Rightarrow> real" where
  "dot xs ys = sum_list (map (\<lambda>(x, y). x * y) (zip xs ys))"

definition magnitude :: "real list \<Rightarrow> real" where
  "magnitude xs = sqrt (dot xs xs)"

text \<open>
  The partial sums of \<open>sum\<close>, from \<open>acc\<close>. The terms of a sum are exact when each term and
  each partial sum is. A run of \<open>_cosine_similarity\<close> on two vectors of finite floats is
  exact when every product, sum, square root and quotient in it is.
\<close>

fun partial_sums :: "real \<Rightarrow> real list \<Rightarrow> real list" where
  "partial_sums acc [] = []"
| "partial_sums acc (z # zs) = (acc + z) # partial_sums (acc + z) zs"

definition exact_terms :: "rounding \<Rightarrow> real list \<Rightarrow> bool" where
  "exact_terms r zs = (list_all (exact r) zs \<and> list_all (exact r) (partial_sums 0 zs))"

definition exact_run :: "rounding \<Rightarrow> real list \<Rightarrow> real list \<Rightarrow> bool" where
  "exact_run r xs ys =
     (exact_terms r (map (\<lambda>(x, y). x * y) (zip xs ys)) \<and>
      exact_terms r (map (\<lambda>x. x * x) xs) \<and>
      exact_terms r (map (\<lambda>x. x * x) ys) \<and>
      exact r (magnitude xs) \<and> exact r (magnitude ys) \<and>
      exact r (magnitude xs * magnitude ys) \<and>
      exact r (dot xs ys / (magnitude xs * magnitude ys)))"

text \<open>An embedding service for tests: the vector of a text is looked up in a table.\<close>

definition table_embed :: "(string \<times> pyfloat list) list \<Rightarrow> pyfloat list embedder" where
  "table_embed table texts mode =
     Inr (map (\<lambda>t. case map_of table t of Some v \<Rightarrow> v | None \<Rightarrow> []) texts)"

text \<open>
  A sequence of calls for the examples: three chunks of two documents. The vector of
  the second chunk is that of the query \<open>q\<close>, the other two are orthogonal to it.
\<close>

definition sample_table :: "(string \<times> pyfloat list) list" where
  "sample_table =
     [(''q'', [Finite 1, Finite 0]), (''aa'', [Finite 0, Finite 1]),
      (''bbbb'', [Finite 1, Finite 0]), (''cc'', [Finite 0, Finite 1])]"

definition sample_ops :: "pyfloat list index_op list" where
  "sample_ops =
     [Add (table_embed sample_table)
        [plain_chunk ''c1'' ''A'' ''aa'', plain_chunk ''c2'' ''A'' ''bbbb'',
         plain_chunk ''c3'' ''B'' ''cc'']]"

definition sample_result :: "string \<Rightarrow> string \<Rightarrow> string \<Rightarrow> pyfloat \<Rightarrow> search_result" where
  "sample_result cid doc_id content score =
     \<lparr> r_chunk = plain_chunk cid doc_id content, r_score = score \<rparr>"

text \<open>
  A sequence of calls with a vector whose square is no finite float: the first chunk
  and the query \<open>q\<close> have it.
\<close>

definition overflow_table :: "(string \<times> pyfloat list) list" where
  "overflow_table =
     [(''q'', [Finite big]), (''x'', [Finite big]), (''y'', [Finite 1])]"

definition overflow_ops :: "pyfloat list index_op list" where
  "overflow_ops =
     [Add (table_embed overflow_table)
        [plain_chunk ''c1'' ''A'' ''x'', plain_chunk ''c2'' ''A'' ''y'']]"

text \<open>Two short texts on which the cursor of \<open>chunk_text\<close> is followed by hand below.\<close>

definition stuck_text :: string where
  "stuck_text = ''a        '' @ [CHR 0x0A] @ ''xx''"

definition stuck_text_small :: string where
  "stuck_text_small = ''a'' @ [CHR 0x0A] @ '' '' @ [CHR 0x0A] @ ''xy''"

text \<open>
  A family of such texts: a letter, \<open>k\<close> spaces, a newline and \<open>n\<close> letters.
\<close>

definition stuck_family :: "nat \<Rightarrow> nat \<Rightarrow> string" where
  "stuck_family k n =
     CHR ''a'' # replicate k (CHR '' '') @ CHR 0x0A # replicate n (CHR ''x'')"

section \<open>The chunker: arguments, termination, ids, order\<close>

subsection \<open>A rule for the cursor loop\<close>

text \<open>
  Partial correctness of the loop, in the style of a while rule: an invariant \<open>I\<close> of
  the loop variables that every pass keeps, and a postcondition \<open>Q\<close> that holds at
  both exits.
\<close>

lemma chunk_loop_rule:
  fixes I :: "chunk list \<Rightarrow> int \<Rightarrow> int \<Rightarrow> bool" and Q :: "chunk list \<Rightarrow> bool"
  assumes ret: "chunk_loop H t d cs ov sep chunks0 start0 index0 = Some y"
    and init: "I chunks0 start0 index0"
    and body: "\<And>chunks start index end_pos content chunks' index' start'.
      \<lbrakk>I chunks start index; start < int (length t);
       end_pos = window_end t sep start cs;
       content = strip (py_slice t start end_pos);
       chunks' = (if content \<noteq> []
                  then chunks @ [new_chunk H d content index start end_pos] else chunks);
       index' = (if content \<noteq> [] then index + 1 else index);
       start' = end_pos - ov\<rbrakk>
      \<Longrightarrow> (int (length t) \<le> start' \<longrightarrow> Q chunks') \<and>
          (start' < int (length t) \<longrightarrow>
             I chunks' (if (if chunks' \<noteq> [] then start' \<le> c_start_char (last chunks')
                            else start' \<le> 0) then end_pos else start') index')"
    and exit: "\<And>chunks start index. \<lbrakk>I chunks start index; \<not> start < int (length t)\<rbrakk> \<Longrightarrow> Q chunks"
  shows "Q y"
proof -
  have "H' = H \<and> t' = t \<and> d' = d \<and> cs' = cs \<and> ov' = ov \<and> sep' = sep \<and> I chunks start index
        \<longrightarrow> Q y'"
    if "chunk_loop H' t' d' cs' ov' sep' chunks start index = Some y'"
    for H' t' d' cs' ov' sep' chunks start index y'
    using that
  proof (rule chunk_loop.raw_induct
      [where P = "\<lambda>H' t' d' cs' ov' sep' chunks start index y'.
         H' = H \<and> t' = t \<and> d' = d \<and> cs' = cs \<and> ov' = ov \<and> sep' = sep \<and> I chunks start index
         \<longrightarrow> Q y'", rotated])
    fix f :: "(string \<Rightarrow> string) \<Rightarrow> string \<Rightarrow> string \<Rightarrow> int \<Rightarrow> int \<Rightarrow> string
               \<Rightarrow> chunk list \<Rightarrow> int \<Rightarrow> int \<Rightarrow> chunk list option"
    fix H' t' d' cs' ov' sep' chunks start index y'
    assume IH: "\<And>H' t' d' cs' ov' sep' chunks start index y'.
      f H' t' d' cs' ov' sep' chunks start index = Some y' \<Longrightarrow>
      H' = H \<and> t' = t \<and> d' = d \<and> cs' = cs \<and> ov' = ov \<and> sep' = sep \<and> I chunks start index
         \<longrightarrow> Q y'"
    assume step: "(if start < int (length t') then
        (let end_pos = window_end t' sep' start cs';
             content = strip (py_slice t' start end_pos);
             chunks' = (if content \<noteq> []
                        then chunks @ [new_chunk H' d' content index start end_pos]
                        else chunks);
             index' = (if content \<noteq> [] then index + 1 else index);
             start' = end_pos - ov'
         in if start' \<ge> int (length t') then Some chunks'
            else f H' t' d' cs' ov' sep' chunks'
                   (if (if chunks' \<noteq> [] then start' \<le> c_start_char (last chunks')
                        else start' \<le> 0)
                    then end_pos else start')
                   index')
      else Some chunks) = Some y'"
    show "H' = H \<and> t' = t \<and> d' = d \<and> cs' = cs \<and> ov' = ov \<and> sep' = sep \<and> I chunks start index
         \<longrightarrow> Q y'"
    proof
      assume a: "H' = H \<and> t' = t \<and> d' = d \<and> cs' = cs \<and> ov' = ov \<and> sep' = sep \<and> I chunks start index"
      then have Ic: "I chunks start index" by simp
      show "Q y'"
      proof (cases "start < int (length t)")
        case False
        with step a have "y' = chunks" by simp
        with exit[OF Ic False] show ?thesis by simp
      next
        case True
        define end_pos where "end_pos = window_end t sep start cs"
        define content where "content = strip (py_slice t start end_pos)"
        define chunks' where "chunks' = (if content \<noteq> []
                  then chunks @ [new_chunk H d content index start end_pos] else chunks)"
        define index' where "index' = (if content \<noteq> [] then index + 1 else index)"
        define start' where "start' = end_pos - ov"
        note b = body[OF Ic True end_pos_def content_def chunks'_def index'_def start'_def]
        show ?thesis
        proof (cases "int (length t) \<le> start'")
          case True
          with step a \<open>start < int (length t)\<close> have "y' = chunks'"
            by (auto simp: Let_def end_pos_def content_def chunks'_def index'_def start'_def)
          with b True show ?thesis by simp
        next
          case False
          with step a \<open>start < int (length t)\<close>
          have "f H t d cs ov sep chunks'
                   (if (if chunks' \<noteq> [] then start' \<le> c_start_char (last chunks')
                        else start' \<le> 0)
                    then end_pos else start') index' = Some y'"
            by (auto simp: Let_def end_pos_def content_def chunks'_def index'_def start'_def)
          from IH[OF this] b False show ?thesis by simp
        qed
      qed
    qed
  qed
  from this[OF ret] init show ?thesis by simp
qed

subsection \<open>Invalid arguments\<close>

text \<open>
  C1, as the claim states it, fails: the test for a blank text comes before the tests
  of the arguments, so a whitespace-only text with \<open>chunk_size = 0\<close> and a negative
  overlap returns the empty list and raises nothing.
\<close>

theorem chunk_text_blank_skips_validation:
  "chunk_text id ''  '' ''d'' 0 (- 1) [CHR 0x0A] = Some (Inr [])"
  by (simp add: chunk_text_def strip_def isspace_def)

text \<open>
  C1, amended: with \<open>chunk_size \<le> 0\<close>, \<open>overlap < 0\<close> or \<open>overlap \<ge> chunk_size\<close>, a
  text that is not blank makes \<open>chunk_text\<close> raise \<open>ValueError\<close>, without entering the
  cursor loop and with no chunk; a blank text returns the empty list and no error.
\<close>

theorem chunk_text_invalid_arguments:
  assumes "chunk_size \<le> 0 \<or> overlap < 0 \<or> overlap \<ge> chunk_size"
  shows "(strip text \<noteq> [] \<longrightarrow>
            (\<exists>msg. chunk_text sha256_hex text doc_id chunk_size overlap separator
                     = Some (Inl (ValueError msg)))) \<and>
         (strip text = [] \<longrightarrow>
            chunk_text sha256_hex text doc_id chunk_size overlap separator = Some (Inr []))"
  using assms by (auto simp: chunk_text_def)

theorem chunk_text_invalid_arguments_witness:
  "((10::int) \<le> 0 \<or> (10::int) < 0 \<or> (10::int) \<ge> 10) \<and>
   strip ''test'' \<noteq> [] \<and>
   (\<exists>msg. chunk_text id ''test'' ''t'' 10 10 [CHR 0x0A] = Some (Inl (ValueError msg))) \<and>
   strip ''  '' = [] \<and>
   chunk_text id ''  '' ''t'' 10 10 [CHR 0x0A] = Some (Inr [])"
proof -
  have h: "(10::int) \<le> 0 \<or> (10::int) < 0 \<or> (10::int) \<ge> 10" by simp
  have a: "strip ''test'' \<noteq> []" by (simp add: strip_def isspace_def)
  have b: "strip ''  '' = []" by (simp add: strip_def isspace_def)
  from chunk_text_invalid_arguments[OF h, of "''test''" id "''t''" "[CHR 0x0A]"]
       chunk_text_invalid_arguments[OF h, of "''  ''" id "''t''" "[CHR 0x0A]"] a b h
  show ?thesis by blast
qed

subsection \<open>Termination\<close>

text \<open>
  On \<open>stuck_text\<close> with \<open>chunk_size = 10\<close> and \<open>overlap = 9\<close> the first window \<open>[0, 10)\<close>
  ends after the newline at 9 and gives the chunk \<open>a\<close> at 0; the cursor moves to 1.
  The window from 1 ends after the same newline, is blank and is discarded, and the
  new cursor is \<open>10 - 9 = 1\<close> again. The guard compares it with the start of the last
  chunk kept, which is 0, so it does not fire, and the state repeats.
\<close>

lemma stuck_len: "int (length stuck_text) = 12"
  by code_simp

lemma stuck_first_window:
  "window_end stuck_text [CHR 0x0A] 0 10 = 10" "strip (py_slice stuck_text 0 10) = ''a''"
  by code_simp+

lemma stuck_window:
  "window_end stuck_text [CHR 0x0A] 1 10 = 10" "strip (py_slice stuck_text 1 10) = []"
  by code_simp+

lemma stuck_state:
  assumes ret: "chunk_loop H stuck_text d 10 9 [CHR 0x0A] chunks 1 index = Some y"
    and "chunks \<noteq> []" and "c_start_char (last chunks) = 0"
  shows False
proof (rule chunk_loop_rule
    [where I = "\<lambda>chunks start index. chunks \<noteq> [] \<and> c_start_char (last chunks) = 0 \<and> start = 1"
       and Q = "\<lambda>_. False", OF ret])
qed (use assms in \<open>auto simp: stuck_window stuck_len\<close>)

text \<open>
  C4: the loop does not terminate for every text: \<open>chunk_text\<close> with valid arguments
  (\<open>chunk_size = 10\<close>, \<open>overlap = 9\<close>, the default separator) never returns on
  \<open>stuck_text\<close>, whatever the digest function.
\<close>

theorem chunk_text_never_returns:
  "chunk_text sha256_hex stuck_text ''d'' 10 9 [CHR 0x0A] = None"
proof -
  have ns: "strip stuck_text \<noteq> []" by code_simp
  have "chunk_loop sha256_hex stuck_text ''d'' 10 9 [CHR 0x0A] [] 0 0 =
        chunk_loop sha256_hex stuck_text ''d'' 10 9 [CHR 0x0A]
          [new_chunk sha256_hex ''d'' ''a'' 0 0 10] 1 1"
    using chunk_loop.simps[of sha256_hex stuck_text "''d''" 10 9 "[CHR 0x0A]" "[]" 0 0]
    by (simp add: stuck_first_window stuck_len Let_def new_chunk_def)
  moreover have "chunk_loop sha256_hex stuck_text ''d'' 10 9 [CHR 0x0A]
          [new_chunk sha256_hex ''d'' ''a'' 0 0 10] 1 1 = None"
    using stuck_state[of sha256_hex "''d''" "[new_chunk sha256_hex ''d'' ''a'' 0 0 10]" 1]
    by (cases "chunk_loop sha256_hex stuck_text ''d'' 10 9 [CHR 0x0A]
          [new_chunk sha256_hex ''d'' ''a'' 0 0 10] 1 1") (auto simp: new_chunk_def)
  ultimately show ?thesis
    using ns by (simp add: chunk_text_def)
qed

subsection \<open>Indices, order and coverage of the returned chunks\<close>

lemma strip_empty_iff: "strip s = [] \<longleftrightarrow> (\<forall>c\<in>set s. isspace c)"
proof -
  have "dropWhile isspace (rev (dropWhile isspace s)) = [] \<longleftrightarrow> dropWhile isspace s = []"
  proof (cases "dropWhile isspace s")
    case Nil
    then show ?thesis by (auto dest: set_dropWhileD)
  next
    case (Cons x xs)
    then have "\<not> isspace x" using hd_dropWhile[of isspace s] by auto
    with Cons show ?thesis by (auto simp: dropWhile_eq_Nil_conv)
  qed
  then show ?thesis by (simp add: strip_def dropWhile_eq_Nil_conv)
qed

lemma window_end_gt: "0 < cs \<Longrightarrow> start < window_end t sep start cs"
  by (auto simp: window_end_def Let_def)

lemma blank_extend:
  assumes cov: "\<forall>c\<in>set (take (nat E) t). isspace c"
    and a: "0 \<le> a" "a \<le> E"
    and w: "\<forall>c\<in>set (py_slice t a b). isspace c"
  shows "\<forall>c\<in>set (take (nat (max E b)) t). isspace c"
proof
  fix c assume "c \<in> set (take (nat (max E b)) t)"
  then obtain i where i: "i < length t" "i < nat (max E b)" "c = t ! i"
    by (auto simp: in_set_conv_nth)
  show "isspace c"
  proof (cases "i < nat E")
    case True
    with i have "c \<in> set (take (nat E) t)" by (auto simp: in_set_conv_nth intro!: exI[of _ i])
    with cov show ?thesis by blast
  next
    case False
    with i a have ib: "int i < b" "a \<le> int i" by auto
    let ?n = "int (length t)"
    have lo: "slice_bound ?n a = a" using a i ib by (auto simp: slice_bound_def)
    have hi: "int i < slice_bound ?n b" using i ib a by (auto simp: slice_bound_def)
    have "py_slice t a b = take (nat (slice_bound ?n b - a)) (drop (nat a) t)"
      by (simp add: py_slice_def Let_def lo)
    moreover have "i - nat a < length (take (nat (slice_bound ?n b - a)) (drop (nat a) t))"
      using hi ib i a by auto
    moreover have "take (nat (slice_bound ?n b - a)) (drop (nat a) t) ! (i - nat a) = t ! i"
      using hi ib i a by auto
    ultimately have "c \<in> set (py_slice t a b)"
      using i by (metis nth_mem)
    with w show ?thesis by blast
  qed
qed

text \<open>
  When the loop returns on a text that is not blank, it returns at least one chunk, the
  indices count from 0 and the starts increase strictly. The windows cover the text
  from 0 without a gap, so a character that is not whitespace lies in a window that is
  kept.
\<close>

lemma chunk_loop_shape:
  assumes ret: "chunk_loop H t d cs ov sep [] 0 0 = Some y"
    and cs: "0 < cs" and ov: "0 \<le> ov"
    and nb: "strip t \<noteq> []"
  shows "y \<noteq> [] \<and> map c_index y = map int [0..<length y] \<and>
         sorted_wrt (<) (map c_start_char y)"
proof -
  let ?I = "\<lambda>chunks start index.
        index = int (length chunks) \<and> 0 \<le> start \<and>
        map c_index chunks = map int [0..<length chunks] \<and>
        sorted_wrt (<) (map c_start_char chunks) \<and>
        (\<forall>c\<in>set chunks. 0 \<le> c_start_char c \<and> c_start_char c < start) \<and>
        (chunks = [] \<longrightarrow> (\<exists>E\<ge>start. \<forall>c\<in>set (take (nat E) t). isspace c))"
  let ?Q = "\<lambda>y. y \<noteq> [] \<and> map c_index y = map int [0..<length y] \<and>
         sorted_wrt (<) (map c_start_char y)"
  show ?thesis
  proof (rule chunk_loop_rule[where I = ?I and Q = ?Q, OF ret])
    show "?I [] 0 0"
      by (auto intro!: exI[of _ 0])
  next
    fix chunks :: "chunk list" and start index :: int
    assume I: "?I chunks start index" and fin: "\<not> start < int (length t)"
    have "chunks \<noteq> []"
    proof
      assume "chunks = []"
      with I obtain E where "E \<ge> start" "\<forall>c\<in>set (take (nat E) t). isspace c" by blast
      with fin have "\<forall>c\<in>set t. isspace c" by simp
      with nb show False by (simp add: strip_empty_iff)
    qed
    with I show "?Q chunks" by simp
  next
    fix chunks chunks' :: "chunk list" and start index end_pos index' start' :: int
      and content :: string
    assume I: "?I chunks start index"
      and lt: "start < int (length t)"
      and e: "end_pos = window_end t sep start cs"
      and c: "content = strip (py_slice t start end_pos)"
      and ch: "chunks' = (if content \<noteq> []
                    then chunks @ [new_chunk H d content index start end_pos] else chunks)"
      and ix: "index' = (if content \<noteq> [] then index + 1 else index)"
      and st: "start' = end_pos - ov"
    define nxt where "nxt = (if (if chunks' \<noteq> [] then start' \<le> c_start_char (last chunks')
                              else start' \<le> 0) then end_pos else start')"
    have gt: "start < end_pos" using e cs by (simp add: window_end_gt)
    have len: "index' = int (length chunks')" using I ch ix by simp
    have idx: "map c_index chunks' = map int [0..<length chunks']"
      using I ch by (simp add: new_chunk_def)
    have srt: "sorted_wrt (<) (map c_start_char chunks')"
      using I ch by (auto simp: new_chunk_def sorted_wrt_append)
    have below: "\<forall>c\<in>set chunks'. 0 \<le> c_start_char c \<and> c_start_char c \<le> start"
      using I ch by (auto simp: new_chunk_def)
    have nxt_le: "nxt \<le> end_pos" using ov st by (auto simp: nxt_def)
    have nxt_gt: "\<forall>c\<in>set chunks'. c_start_char c < nxt"
    proof (cases "chunks' = []")
      case True then show ?thesis by simp
    next
      case False
      have mx: "\<forall>c\<in>set chunks'. c_start_char c \<le> c_start_char (last chunks')"
      proof
        fix c assume "c \<in> set chunks'"
        then obtain i where i: "i < length chunks'" "c = chunks' ! i"
          by (auto simp: in_set_conv_nth)
        show "c_start_char c \<le> c_start_char (last chunks')"
        proof (cases "i = length chunks' - 1")
          case True with i False show ?thesis by (simp add: last_conv_nth)
        next
          case F: False
          with i have "i < length chunks' - 1" by simp
          with srt i False
          have "c_start_char (chunks' ! i) < c_start_char (chunks' ! (length chunks' - 1))"
            by (auto simp: sorted_wrt_iff_nth_less)
          with i False show ?thesis by (simp add: last_conv_nth)
        qed
      qed
      show ?thesis
      proof (cases "start' \<le> c_start_char (last chunks')")
        case True
        with False have "nxt = end_pos" by (simp add: nxt_def)
        with below gt show ?thesis by fastforce
      next
        case F: False
        with False have "nxt = start'" by (simp add: nxt_def)
        with F mx show ?thesis by fastforce
      qed
    qed
    have nxt_pos: "0 \<le> nxt"
    proof (cases "chunks' = []")
      case True with gt I show ?thesis by (auto simp: nxt_def)
    next
      case False
      then have "last chunks' \<in> set chunks'" by simp
      with below nxt_gt show ?thesis by fastforce
    qed
    have cov: "chunks' = [] \<longrightarrow> (\<exists>E\<ge>end_pos. \<forall>c\<in>set (take (nat E) t). isspace c)"
    proof
      assume em: "chunks' = []"
      with ch have c0: "content = []" and c1: "chunks = []" by (auto split: if_splits)
      with I obtain E where E: "E \<ge> start" "\<forall>c\<in>set (take (nat E) t). isspace c" by blast
      from c0 c have "\<forall>c\<in>set (py_slice t start end_pos). isspace c"
        by (simp add: strip_empty_iff)
      from blank_extend[OF E(2) _ E(1) this] I
      have "\<forall>c\<in>set (take (nat (max E end_pos)) t). isspace c" by simp
      then show "\<exists>E\<ge>end_pos. \<forall>c\<in>set (take (nat E) t). isspace c"
        by (intro exI[of _ "max E end_pos"]) simp
    qed
    have ne: "chunks' \<noteq> []" if a: "int (length t) \<le> start'"
    proof
      assume "chunks' = []"
      with cov obtain E where "E \<ge> end_pos" "\<forall>c\<in>set (take (nat E) t). isspace c" by blast
      with a st ov have "\<forall>c\<in>set t. isspace c" by simp
      with nb show False by (simp add: strip_empty_iff)
    qed
    have cov': "chunks' = [] \<longrightarrow> (\<exists>E\<ge>nxt. \<forall>c\<in>set (take (nat E) t). isspace c)"
    proof
      assume "chunks' = []"
      with cov obtain E where "E \<ge> end_pos" "\<forall>c\<in>set (take (nat E) t). isspace c" by blast
      with nxt_le show "\<exists>E\<ge>nxt. \<forall>c\<in>set (take (nat E) t). isspace c"
        by (intro exI[of _ E]) simp
    qed
    have below': "\<forall>c\<in>set chunks'. 0 \<le> c_start_char c \<and> c_start_char c < nxt"
      using below nxt_gt by blast
    have "?I chunks' nxt index'"
      using len idx srt nxt_pos below' cov' by blast
    with ne idx srt
    show "(int (length t) \<le> start' \<longrightarrow> ?Q chunks') \<and>
          (start' < int (length t) \<longrightarrow>
            ?I chunks' (if (if chunks' \<noteq> [] then start' \<le> c_start_char (last chunks')
                            else start' \<le> 0) then end_pos else start') index')"
      unfolding nxt_def by blast
  qed
qed

lemma chunk_text_shape:
  assumes "chunk_text H t d cs ov sep = Some (Inr y)" and "strip t \<noteq> []"
  shows "y \<noteq> [] \<and> map c_index y = map int [0..<length y] \<and>
         sorted_wrt (<) (map c_start_char y)"
proof -
  from assms have "chunk_loop H t d cs ov sep [] 0 0 = Some y" "0 < cs" "0 \<le> ov"
    by (auto simp: chunk_text_def split: if_splits)
  with assms(2) show ?thesis by (intro chunk_loop_shape)
qed

text \<open>
  On \<open>stuck_text_small\<close> with \<open>chunk_size = 3\<close> and \<open>overlap = 2\<close> the first window ends
  after the newline at 1 and gives the chunk \<open>a\<close> at 0; the new cursor \<open>2 - 2 = 0\<close> is
  forced to 2. The window from 2 ends after the newline at 3, is blank and is
  discarded, and the new cursor is \<open>4 - 2 = 2\<close> again.
\<close>

lemma small_len: "int (length stuck_text_small) = 6"
  by code_simp

lemma small_first_window:
  "window_end stuck_text_small [CHR 0x0A] 0 3 = 2" "strip (py_slice stuck_text_small 0 2) = ''a''"
  by code_simp+

lemma small_window:
  "window_end stuck_text_small [CHR 0x0A] 2 3 = 4" "strip (py_slice stuck_text_small 2 4) = []"
  by code_simp+

lemma small_state:
  assumes ret: "chunk_loop H stuck_text_small d 3 2 [CHR 0x0A] chunks 2 index = Some y"
    and "chunks \<noteq> []" and "c_start_char (last chunks) = 0"
  shows False
proof (rule chunk_loop_rule
    [where I = "\<lambda>chunks start index. chunks \<noteq> [] \<and> c_start_char (last chunks) = 0 \<and> start = 2"
       and Q = "\<lambda>_. False", OF ret])
qed (use assms in \<open>auto simp: small_window small_len\<close>)

text \<open>
  C6: on a text that is not blank, with valid arguments, \<open>chunk_text\<close> need not return a
  sequence at all: on \<open>stuck_text_small\<close> it never returns.
\<close>

theorem chunk_text_returns_nothing:
  "strip stuck_text_small \<noteq> [] \<and>
   chunk_text id stuck_text_small ''d'' 3 2 [CHR 0x0A] = None"
proof -
  have ns: "strip stuck_text_small \<noteq> []" by code_simp
  have "chunk_loop id stuck_text_small ''d'' 3 2 [CHR 0x0A] [] 0 0 =
        chunk_loop id stuck_text_small ''d'' 3 2 [CHR 0x0A]
          [new_chunk id ''d'' ''a'' 0 0 2] 2 1"
    using chunk_loop.simps[of id stuck_text_small "''d''" 3 2 "[CHR 0x0A]" "[]" 0 0]
    by (simp add: small_first_window small_len Let_def new_chunk_def)
  moreover have "chunk_loop id stuck_text_small ''d'' 3 2 [CHR 0x0A]
          [new_chunk id ''d'' ''a'' 0 0 2] 2 1 = None"
    using small_state[of id "''d''" "[new_chunk id ''d'' ''a'' 0 0 2]" 1]
    by (cases "chunk_loop id stuck_text_small ''d'' 3 2 [CHR 0x0A]
          [new_chunk id ''d'' ''a'' 0 0 2] 2 1") (auto simp: new_chunk_def)
  ultimately show ?thesis
    using ns by (simp add: chunk_text_def)
qed

subsection \<open>The cycle for every chunk size\<close>

lemma last_filter_upto:
  assumes "a \<le> i" "i \<le> b" "P i" "\<forall>j. i < j \<and> j \<le> b \<longrightarrow> \<not> P j"
  shows "filter P [a..b] \<noteq> [] \<and> last (filter P [a..b]) = i"
proof -
  have 1: "[a..b] = [a..i] @ [i + 1..b]" using assms(1,2) by (rule upto_split2)
  have 2: "[a..i] = [a..i - 1] @ [i]" using assms(1) by (rule upto_rec2)
  have 3: "filter P [i + 1..b] = []" using assms(4) by (auto simp: filter_empty_conv)
  have "filter P [a..b] = filter P [a..i - 1] @ [i]"
    unfolding 1 filter_append 3 by (subst 2) (simp add: assms(3))
  then show ?thesis by simp
qed

lemma rfind_last:
  assumes "0 \<le> start" "start \<le> i" "i + int (length sub) \<le> stop" "stop \<le> int (length t)"
    and "take (length sub) (drop (nat i) t) = sub"
    and "\<forall>j. i < j \<and> j + int (length sub) \<le> stop \<longrightarrow> take (length sub) (drop (nat j) t) \<noteq> sub"
  shows "rfind t sub start stop = i"
proof -
  have sb: "slice_bound (int (length t)) stop = stop"
    using assms by (auto simp: slice_bound_def)
  have "filter (\<lambda>i. take (length sub) (drop (nat i) t) = sub) [start..stop - int (length sub)] \<noteq> []
      \<and> last (filter (\<lambda>i. take (length sub) (drop (nat i) t) = sub)
            [start..stop - int (length sub)]) = i"
    using assms by (intro last_filter_upto) auto
  then show ?thesis using assms(1) by (simp add: rfind_def Let_def sb)
qed

lemma family_length: "length (stuck_family k n) = k + n + 2"
  by (simp add: stuck_family_def)

lemma family_nth:
  "stuck_family k n ! 0 = CHR ''a''"
  "0 < j \<Longrightarrow> j \<le> k \<Longrightarrow> stuck_family k n ! j = CHR '' ''"
  "stuck_family k n ! (k + 1) = CHR 0x0A"
  "k + 1 < j \<Longrightarrow> j < k + n + 2 \<Longrightarrow> stuck_family k n ! j = CHR ''x''"
proof -
  show "stuck_family k n ! 0 = CHR ''a''" by (simp add: stuck_family_def)
  show "stuck_family k n ! j = CHR '' ''" if "0 < j" "j \<le> k"
    using that by (cases j) (auto simp: stuck_family_def nth_append)
  show "stuck_family k n ! (k + 1) = CHR 0x0A"
    by (simp add: stuck_family_def nth_append)
  show "stuck_family k n ! j = CHR ''x''" if "k + 1 < j" "j < k + n + 2"
  proof -
    from that obtain j' where j': "j = Suc j'" by (cases j) auto
    with that have "k < j'" "j' - k - 1 < n" by auto
    with j' that show ?thesis
      by (cases "j' - k") (auto simp: stuck_family_def nth_append)
  qed
qed

lemma take1_drop: "j < length t \<Longrightarrow> take (Suc 0) (drop j t) = [t ! j]"
  by (simp add: take_Suc_conv_app_nth Cons_nth_drop_Suc[symmetric])

lemma family_window:
  assumes "0 \<le> start" "start \<le> int k" "int k + 2 \<le> start + int cs" "start + int cs < int (k + n + 2)"
  shows "window_end (stuck_family k n) [CHR 0x0A] start (int cs) = int k + 2"
proof -
  let ?t = "stuck_family k n"
  have "rfind ?t [CHR 0x0A] start (start + int cs) = int k + 1"
  proof (rule rfind_last)
    show "take (length [CHR 0x0A]) (drop (nat (int k + 1)) ?t) = [CHR 0x0A]"
      using family_nth(3)[of k n] by (simp add: take1_drop family_length nat_add_distrib)
    show "\<forall>j. int k + 1 < j \<and> j + int (length [CHR 0x0A]) \<le> start + int cs \<longrightarrow>
            take (length [CHR 0x0A]) (drop (nat j) ?t) \<noteq> [CHR 0x0A]"
    proof (intro allI impI)
      fix j assume j: "int k + 1 < j \<and> j + int (length [CHR 0x0A]) \<le> start + int cs"
      with assms have "k + 1 < nat j" "nat j < k + n + 2" by auto
      then show "take (length [CHR 0x0A]) (drop (nat j) ?t) \<noteq> [CHR 0x0A]"
        using family_nth(4)[of k "nat j" n] by (simp add: take1_drop family_length)
    qed
  qed (use assms in \<open>auto simp: family_length\<close>)
  with assms show ?thesis by (simp add: window_end_def Let_def family_length)
qed

lemma dropWhile_replicate: "P x \<Longrightarrow> dropWhile P (replicate k x @ ys) = dropWhile P ys"
  by (induction k) auto

lemma family_first_content:
  "strip (py_slice (stuck_family k n) 0 (int k + 2)) = ''a''"
proof -
  have "py_slice (stuck_family k n) 0 (int k + 2) = CHR ''a'' # replicate k (CHR '' '') @ [CHR 0x0A]"
    by (simp add: py_slice_def slice_bound_def Let_def stuck_family_def nat_add_distrib)
  moreover have "isspace (CHR '' '')" "isspace (CHR 0x0A)" "\<not> isspace (CHR ''a'')"
    by (simp_all add: isspace_def)
  ultimately show ?thesis
    by (simp add: strip_def dropWhile_replicate)
qed

lemma family_blank:
  assumes "1 \<le> s" "s \<le> int k + 1"
  shows "strip (py_slice (stuck_family k n) s (int k + 2)) = []"
proof -
  let ?t = "stuck_family k n"
  have sl: "py_slice ?t s (int k + 2) = take (nat (int k + 2 - s)) (drop (nat s) ?t)"
    using assms by (simp add: py_slice_def slice_bound_def Let_def family_length)
  have "isspace c" if "c \<in> set (py_slice ?t s (int k + 2))" for c
  proof -
    from that obtain i where i: "i < nat (int k + 2 - s)" "c = ?t ! (nat s + i)"
      unfolding sl using assms by (auto simp: in_set_conv_nth family_length)
    with assms have "0 < nat s + i" "nat s + i \<le> k + 1" by auto
    then have "?t ! (nat s + i) = CHR '' '' \<or> ?t ! (nat s + i) = CHR 0x0A"
      using family_nth(2)[of "nat s + i" k n] family_nth(3)[of k n]
      by (cases "nat s + i = k + 1") auto
    with i show ?thesis by (auto simp: isspace_def)
  qed
  then show ?thesis by (simp add: strip_empty_iff)
qed

text \<open>
  The cycle does not need particular arguments: for every \<open>chunk_size\<close> and every
  \<open>overlap\<close> of at least 2 below it, a text of one letter, \<open>k\<close> spaces with
  \<open>overlap \<le> k + 1\<close> and \<open>k + 2 \<le> chunk_size\<close>, a newline and \<open>chunk_size\<close> letters makes
  the loop run forever.
\<close>

lemma chunk_text_cycles_on_family:
  assumes "2 \<le> ov" "ov \<le> int k + 1" "int k + 2 \<le> cs"
  shows "chunk_text H (stuck_family k (nat cs)) d cs ov [CHR 0x0A] = None"
proof -
  let ?t = "stuck_family k (nat cs)"
  let ?s = "int k + 2 - ov"
  let ?c0 = "new_chunk H d ''a'' 0 0 (int k + 2)"
  have len: "int (length ?t) = int k + cs + 2" using assms by (simp add: family_length)
  have w0: "window_end ?t [CHR 0x0A] 0 cs = int k + 2"
    using family_window[of 0 k "nat cs" "nat cs"] assms by simp
  have ws: "window_end ?t [CHR 0x0A] ?s cs = int k + 2"
    using family_window[of ?s k "nat cs" "nat cs"] assms by simp
  have bs: "strip (py_slice ?t ?s (int k + 2)) = []"
    using assms by (intro family_blank) auto
  have ns: "strip ?t \<noteq> []"
    by (auto simp: strip_empty_iff stuck_family_def isspace_def)
  have stuck: False
    if ret: "chunk_loop H ?t d cs ov [CHR 0x0A] [?c0] ?s 1 = Some y" for y
  proof (rule chunk_loop_rule
      [where I = "\<lambda>chunks start index.
            chunks \<noteq> [] \<and> c_start_char (last chunks) = 0 \<and> start = ?s"
         and Q = "\<lambda>_. False", OF ret])
  qed (use assms in \<open>auto simp: ws bs len new_chunk_def\<close>)
  have "chunk_loop H ?t d cs ov [CHR 0x0A] [] 0 0 = chunk_loop H ?t d cs ov [CHR 0x0A] [?c0] ?s 1"
    using chunk_loop.simps[of H ?t d cs ov "[CHR 0x0A]" "[]" 0 0] assms
    by (simp add: w0 family_first_content len Let_def new_chunk_def)
  moreover have "chunk_loop H ?t d cs ov [CHR 0x0A] [?c0] ?s 1 = None"
    using stuck by (cases "chunk_loop H ?t d cs ov [CHR 0x0A] [?c0] ?s 1") auto
  ultimately show ?thesis
    using ns assms by (simp add: chunk_text_def)
qed

text \<open>With the default arguments of \<open>chunk_text\<close>, 500 and 50, and 60 spaces.\<close>

lemma chunk_text_cycles_with_defaults:
  "chunk_text sha256_hex (stuck_family 60 500) doc_id 500 50 [CHR 0x0A] = None"
  using chunk_text_cycles_on_family[of 50 60 500 sha256_hex doc_id] by simp

subsection \<open>Chunk ids\<close>

lemma chunk_loop_ids:
  assumes ret: "chunk_loop H t d cs ov sep [] 0 0 = Some y"
  shows "\<forall>c\<in>set y. id_from_own_fields H c \<and> c_doc_id c = d"
proof (rule chunk_loop_rule
    [where I = "\<lambda>chunks start index. \<forall>c\<in>set chunks. id_from_own_fields H c \<and> c_doc_id c = d"
       and Q = "\<lambda>y. \<forall>c\<in>set y. id_from_own_fields H c \<and> c_doc_id c = d", OF ret])
qed (auto simp: id_from_own_fields_def new_chunk_def)

lemma chunk_text_ids:
  assumes "chunk_text H t d cs ov sep = Some (Inr y)"
  shows "\<forall>c\<in>set y. id_from_own_fields H c \<and> c_doc_id c = d"
proof (cases "strip t = [] \<or> cs \<le> 0 \<or> ov < 0 \<or> cs \<le> ov")
  case True
  with assms show ?thesis by (auto simp: chunk_text_def split: if_splits)
next
  case False
  with assms have "chunk_loop H t d cs ov sep [] 0 0 = Some y"
    by (auto simp: chunk_text_def split: if_splits)
  then show ?thesis by (rule chunk_loop_ids)
qed

lemma pages_loop_origin:
  assumes "pages_loop H d cs ov pages page_num acc = Some (Inr R)"
  shows "\<forall>c\<in>set R. c \<in> set acc \<or>
           (\<exists>k<length pages. \<exists>c0. from_page H d cs ov (pages ! k) (page_num + k) c0 c)"
  using assms
proof (induction pages arbitrary: page_num acc)
  case Nil
  then show ?case by simp
next
  case (Cons page_text pages)
  have shift: "\<exists>k<length (page_text # pages). \<exists>c0.
                 from_page H d cs ov ((page_text # pages) ! k) (page_num + k) c0 c"
    if "k < length pages" "from_page H d cs ov (pages ! k) (page_num + 1 + k) c0 c" for k c0 c
    using that by (intro exI[of _ "Suc k"] conjI exI[of _ c0]) simp_all
  show ?case
  proof (cases "strip page_text = []")
    case True
    with Cons.prems have "pages_loop H d cs ov pages (page_num + 1) acc = Some (Inr R)" by simp
    from Cons.IH[OF this] shift show ?thesis by blast
  next
    case False
    with Cons.prems obtain z where
      z: "chunk_text H page_text (d @ ''_p'' @ str_nat page_num) cs ov [CHR 0x0A] = Some z"
      by (cases "chunk_text H page_text (d @ ''_p'' @ str_nat page_num) cs ov [CHR 0x0A]") auto
    with False Cons.prems obtain page_chunks where pc: "z = Inr page_chunks"
      by (cases z) auto
    with z False Cons.prems have rest: "pages_loop H d cs ov pages (page_num + 1)
               (acc @ map (\<lambda>c. c\<lparr>c_metadata :=
                               AList.update ''page'' (int page_num + 1) (c_metadata c),
                            c_doc_id := d\<rparr>) page_chunks) = Some (Inr R)"
      by simp
    have here: "\<exists>k<length (page_text # pages). \<exists>c0.
                 from_page H d cs ov ((page_text # pages) ! k) (page_num + k) c0 c"
      if "c \<in> set (map (\<lambda>c. c\<lparr>c_metadata :=
                               AList.update ''page'' (int page_num + 1) (c_metadata c),
                            c_doc_id := d\<rparr>) page_chunks)" for c
    proof -
      from that obtain c0 where "c0 \<in> set page_chunks"
        "c = c0\<lparr>c_metadata := AList.update ''page'' (int page_num + 1) (c_metadata c0),
               c_doc_id := d\<rparr>" by auto
      with z pc have "from_page H d cs ov page_text page_num c0 c"
        unfolding from_page_def by blast
      then show ?thesis by (intro exI[of _ 0] conjI exI[of _ c0]) simp_all
    qed
    show ?thesis
    proof
      fix c assume "c \<in> set R"
      with Cons.IH[OF rest] have "c \<in> set acc \<or> c \<in> set (map (\<lambda>c. c\<lparr>c_metadata :=
                               AList.update ''page'' (int page_num + 1) (c_metadata c),
                            c_doc_id := d\<rparr>) page_chunks) \<or>
         (\<exists>k<length pages. \<exists>c0. from_page H d cs ov (pages ! k) (page_num + 1 + k) c0 c)"
        by auto
      with here shift show "c \<in> set acc \<or>
           (\<exists>k<length (page_text # pages). \<exists>c0.
              from_page H d cs ov ((page_text # pages) ! k) (page_num + k) c0 c)"
        by blast
    qed
  qed
qed

lemma set_reindex: "c \<in> set (reindex xs) \<Longrightarrow> \<exists>c'\<in>set xs. \<exists>i. c = c'\<lparr>c_index := i\<rparr>"
  by (auto simp: reindex_def in_set_enumerate_eq)

text \<open>
  C5, as the claim states it, fails for \<open>chunk_by_pages\<close>: the id is computed from the
  per-page document id and the per-page index before the chunk gets the outer
  \<open>doc_id\<close> and its index in the combined list.
\<close>

theorem chunk_by_pages_id_not_from_own_fields:
  "chunk_by_pages id [''ab''] ''d'' 10 0 =
     Some (Inr [\<lparr>c_id = ''d_p0:0:0'', c_doc_id = ''d'', c_text = ''ab'', c_index = 0,
           c_start_char = 0, c_end_char = 10,
           c_metadata = [(''chunk_size'', 2), (''word_count'', 1), (''page'', 1)]\<rparr>]) \<and>
   \<not> id_from_own_fields id
       \<lparr>c_id = ''d_p0:0:0'', c_doc_id = ''d'', c_text = ''ab'', c_index = 0,
           c_start_char = 0, c_end_char = 10,
           c_metadata = [(''chunk_size'', 2), (''word_count'', 1), (''page'', 1)]\<rparr>"
  by code_simp

text \<open>
  C5, amended: a chunk that \<open>chunk_text\<close> returns has the id derived from its own
  \<open>doc_id\<close>, \<open>index\<close> and \<open>start_char\<close>. A chunk that \<open>chunk_by_pages\<close> returns is, up to
  its index, the relabelled copy of a chunk \<open>c0\<close> that \<open>chunk_text\<close> returned on some page
  \<open>p\<close> (from 0) under the document id \<open>doc_id_p<p>\<close>, and its id is derived from that
  per-page document id, the index of \<open>c0\<close> within its page and the page-local start.
\<close>

theorem chunk_ids_derivation:
  "(chunk_text sha256_hex text doc_id chunk_size overlap separator = Some (Inr chunks) \<longrightarrow>
      (\<forall>c\<in>set chunks. id_from_own_fields sha256_hex c)) \<and>
   (chunk_by_pages sha256_hex pages doc_id chunk_size overlap = Some (Inr chunks') \<longrightarrow>
      (\<forall>c\<in>set chunks'. \<exists>p<length pages. \<exists>c0 i.
          from_page sha256_hex doc_id chunk_size overlap (pages ! p) p c0 (c\<lparr>c_index := i\<rparr>) \<and>
          c_id c = chunk_id sha256_hex (doc_id @ ''_p'' @ str_nat p) (c_index c0) (c_start_char c0)))"
proof (intro conjI impI ballI)
  fix c assume "chunk_text sha256_hex text doc_id chunk_size overlap separator = Some (Inr chunks)"
    "c \<in> set chunks"
  then show "id_from_own_fields sha256_hex c" using chunk_text_ids by blast
next
  fix c assume r: "chunk_by_pages sha256_hex pages doc_id chunk_size overlap = Some (Inr chunks')"
    and c: "c \<in> set chunks'"
  from r obtain z where z: "pages_loop sha256_hex doc_id chunk_size overlap pages 0 [] = Some z"
    "map_sum (\<lambda>e. e) reindex z = Inr chunks'"
    by (auto simp: chunk_by_pages_def)
  then obtain R where R: "pages_loop sha256_hex doc_id chunk_size overlap pages 0 [] = Some (Inr R)"
    and ch: "chunks' = reindex R"
    by (cases z) auto
  from c ch obtain c' i where c': "c' \<in> set R" "c = c'\<lparr>c_index := i\<rparr>"
    using set_reindex by blast
  from pages_loop_origin[OF R] c' obtain p c0 where
    p: "p < length pages"
    and fp: "from_page sha256_hex doc_id chunk_size overlap (pages ! p) p c0 c'"
    by auto
  from fp obtain page_chunks where
    pc: "chunk_text sha256_hex (pages ! p) (doc_id @ ''_p'' @ str_nat p) chunk_size overlap
            [CHR 0x0A] = Some (Inr page_chunks)"
    and c0: "c0 \<in> set page_chunks"
    and eq: "c' = c0\<lparr>c_metadata := AList.update ''page'' (int p + 1) (c_metadata c0),
                     c_doc_id := doc_id\<rparr>"
    unfolding from_page_def by blast
  from chunk_text_ids[OF pc] c0
  have own: "id_from_own_fields sha256_hex c0" "c_doc_id c0 = doc_id @ ''_p'' @ str_nat p" by auto
  have "c\<lparr>c_index := c_index c'\<rparr> = c'" using c'(2) by simp
  with fp have 1: "from_page sha256_hex doc_id chunk_size overlap (pages ! p) p c0
                    (c\<lparr>c_index := c_index c'\<rparr>)" by simp
  have 2: "c_id c = chunk_id sha256_hex (doc_id @ ''_p'' @ str_nat p) (c_index c0) (c_start_char c0)"
    using own c'(2) eq by (simp add: id_from_own_fields_def)
  from p 1 2 show "\<exists>p<length pages. \<exists>c0 i.
          from_page sha256_hex doc_id chunk_size overlap (pages ! p) p c0 (c\<lparr>c_index := i\<rparr>) \<and>
          c_id c = chunk_id sha256_hex (doc_id @ ''_p'' @ str_nat p) (c_index c0) (c_start_char c0)"
    by blast
qed

theorem chunk_ids_derivation_witness:
  "chunk_text id ''ab'' ''d'' 10 0 [CHR 0x0A] =
     Some (Inr [\<lparr>c_id = ''d:0:0'', c_doc_id = ''d'', c_text = ''ab'', c_index = 0,
           c_start_char = 0, c_end_char = 10,
           c_metadata = [(''chunk_size'', 2), (''word_count'', 1)]\<rparr>]) \<and>
   id_from_own_fields id
     \<lparr>c_id = ''d:0:0'', c_doc_id = ''d'', c_text = ''ab'', c_index = 0,
           c_start_char = 0, c_end_char = 10,
           c_metadata = [(''chunk_size'', 2), (''word_count'', 1)]\<rparr> \<and>
   chunk_by_pages id [''ab''] ''d'' 10 0 =
     Some (Inr [\<lparr>c_id = ''d_p0:0:0'', c_doc_id = ''d'', c_text = ''ab'', c_index = 0,
           c_start_char = 0, c_end_char = 10,
           c_metadata = [(''chunk_size'', 2), (''word_count'', 1), (''page'', 1)]\<rparr>]) \<and>
   (\<exists>p c0 i. p < length [''ab''] \<and>
      from_page id ''d'' 10 0 ([''ab''] ! p) p c0
        (\<lparr>c_id = ''d_p0:0:0'', c_doc_id = ''d'', c_text = ''ab'', c_index = 0,
           c_start_char = 0, c_end_char = 10,
           c_metadata = [(''chunk_size'', 2), (''word_count'', 1), (''page'', 1)]\<rparr>
          \<lparr>c_index := i\<rparr>) \<and>
      ''d_p0:0:0'' = chunk_id id (''d'' @ ''_p'' @ str_nat p) (c_index c0) (c_start_char c0))"
proof -
  have a: "chunk_text id ''ab'' ''d'' 10 0 [CHR 0x0A] =
     Some (Inr [\<lparr>c_id = ''d:0:0'', c_doc_id = ''d'', c_text = ''ab'', c_index = 0,
           c_start_char = 0, c_end_char = 10,
           c_metadata = [(''chunk_size'', 2), (''word_count'', 1)]\<rparr>])"
    by code_simp
  have b: "chunk_by_pages id [''ab''] ''d'' 10 0 =
     Some (Inr [\<lparr>c_id = ''d_p0:0:0'', c_doc_id = ''d'', c_text = ''ab'', c_index = 0,
           c_start_char = 0, c_end_char = 10,
           c_metadata = [(''chunk_size'', 2), (''word_count'', 1), (''page'', 1)]\<rparr>])"
    by code_simp
  let ?cA = "\<lparr>c_id = ''d:0:0'', c_doc_id = ''d'', c_text = ''ab'', c_index = 0,
           c_start_char = 0, c_end_char = 10,
           c_metadata = [(''chunk_size'', 2), (''word_count'', 1)]\<rparr>"
  let ?cB = "\<lparr>c_id = ''d_p0:0:0'', c_doc_id = ''d'', c_text = ''ab'', c_index = 0,
           c_start_char = 0, c_end_char = 10,
           c_metadata = [(''chunk_size'', 2), (''word_count'', 1), (''page'', 1)]\<rparr>"
  from chunk_ids_derivation[of id "''ab''" "''d''" 10 0 "[CHR 0x0A]" "[?cA]" "[''ab'']" "[?cB]"] a b
  show ?thesis by simp
qed

section \<open>The cosine similarity\<close>

subsection \<open>It raises nothing\<close>

lemma rounding_mono: "x \<le> y \<Longrightarrow> Rep_rounding r x \<le> Rep_rounding r y"
  using Rep_rounding[of r] by (auto simp: mono_def)

lemma rounding_minus: "Rep_rounding r (- x) = - Rep_rounding r x"
  using Rep_rounding[of r] by auto

lemma rounding_zero: "Rep_rounding r 0 = 0"
  using rounding_minus[of r 0] by simp

lemma rounding_root_tiny: "Rep_rounding r root_tiny = root_tiny"
  using Rep_rounding[of r] by auto

lemma rounding_above_half: "half_tiny < x \<Longrightarrow> tiny \<le> Rep_rounding r x"
  using Rep_rounding[of r] by auto

lemma bounds:
  "0 < half_tiny" "half_tiny < tiny" "tiny < root_tiny" "root_tiny < huge"
  "root_tiny * root_tiny = tiny" "sqrt tiny = root_tiny"
proof -
  have p: "(0::real) < 2 ^ n" for n :: nat by simp
  show "0 < half_tiny" unfolding half_tiny_def by (rule divide_pos_pos[OF zero_less_one p])
  have "(2::real) ^ 1074 < 2 ^ 1075" by (rule power_strict_increasing) simp_all
  then show "half_tiny < tiny" unfolding half_tiny_def tiny_def
    by (intro divide_strict_left_mono mult_pos_pos p zero_less_one)
  have "(2::real) ^ 537 < 2 ^ 1074" by (rule power_strict_increasing) simp_all
  then show "tiny < root_tiny" unfolding root_tiny_def tiny_def
    by (intro divide_strict_left_mono mult_pos_pos p zero_less_one)
  have "(1::real) \<le> 2 ^ 537" by (rule one_le_power) simp
  then have "root_tiny \<le> 1" unfolding root_tiny_def using p[of 537] by (simp only: divide_le_eq_1_pos)
  moreover have "(1::real) < 2 ^ 1024" by (rule one_less_power) simp_all
  ultimately show "root_tiny < huge" unfolding huge_def by linarith
  have "(2::real) ^ 537 * 2 ^ 537 = 2 ^ (537 + 537)" by (rule power_add[symmetric])
  also have "(537::nat) + 537 = 1074" by simp
  finally have e: "(2::real) ^ 537 * 2 ^ 537 = 2 ^ 1074" .
  show sq: "root_tiny * root_tiny = tiny"
    unfolding root_tiny_def tiny_def times_divide_times_eq e by (simp only: mult_1)
  have "0 \<le> root_tiny" unfolding root_tiny_def by (rule divide_nonneg_pos[OF zero_le_one p])
  then have "sqrt (root_tiny * root_tiny) = root_tiny" by (simp only: real_sqrt_abs2 abs_of_nonneg)
  then show "sqrt tiny = root_tiny" by (simp only: sq)
qed

lemma tiny_le_one: "tiny \<le> 1"
proof -
  have "(1::real) \<le> 2 ^ 1074" by (rule one_le_power) simp
  moreover have "(0::real) < 2 ^ 1074" by simp
  ultimately show ?thesis unfolding tiny_def by (simp only: divide_le_eq_1_pos)
qed

lemma to_float_pos: "half_tiny < x \<Longrightarrow>
    to_float r x = PosInf \<or> (\<exists>y. to_float r x = Finite y \<and> tiny \<le> y \<and> Rep_rounding r x = y)"
  using rounding_above_half[of x r] bounds(1)
  by (auto simp: to_float_def signed_inf_def)

lemma to_float_nonneg: "0 \<le> x \<Longrightarrow> settled (to_float r x)"
proof (cases "half_tiny < x")
  case True
  from to_float_pos[OF this, of r] show ?thesis by (auto simp: settled_def)
next
  case False
  moreover assume "0 \<le> x"
  ultimately show ?thesis using bounds(1,2,3,4)
    by (auto simp: to_float_def settled_def)
qed

lemma fmul_self_settled: "settled (fmul r x x)"
proof (cases x)
  case (Finite v)
  then show ?thesis by (simp add: to_float_nonneg)
qed (simp_all add: settled_def)

lemma fadd_settled: "settled x \<Longrightarrow> settled y \<Longrightarrow> settled (fadd r x y)"
proof (cases x; cases y)
  fix a b assume "x = Finite a" "y = Finite b" "settled x" "settled y"
  moreover from this have "0 \<le> a + b" using bounds(1,2) by (auto simp: settled_def)
  ultimately show ?thesis by (simp add: to_float_nonneg)
qed (auto simp: settled_def)

lemma foldl_fadd_settled:
  "settled acc \<Longrightarrow> \<forall>x\<in>set xs. settled x \<Longrightarrow> settled (foldl (fadd r) acc xs)"
  by (induction xs arbitrary: acc) (auto simp: fadd_settled)

lemma squares_settled: "settled (fsum r (map (\<lambda>x. fmul r x x) a))"
  unfolding fsum_def
proof (rule foldl_fadd_settled)
  show "settled (Finite 0)" by (simp add: settled_def)
  show "\<forall>x\<in>set (map (\<lambda>x. fmul r x x) a). settled x" by (simp add: fmul_self_settled)
qed

lemma fsqrt_settled:
  assumes "settled s"
  shows "\<exists>n. fsqrt r s = Inr n \<and> strong n"
proof (cases s)
  case (Finite v)
  show ?thesis
  proof (cases "v = 0")
    case True
    with Finite show ?thesis using bounds(1)
      by (simp add: to_float_def strong_def huge_def)
  next
    case False
    with assms Finite have v: "tiny \<le> v" by (simp add: settled_def)
    then have s: "root_tiny \<le> sqrt v" using bounds(6) real_sqrt_le_mono by fastforce
    with bounds have h: "half_tiny < sqrt v" by simp
    from v bounds have nn: "\<not> v < 0" by simp
    from to_float_pos[OF h, of r] show ?thesis
    proof
      assume "to_float r (sqrt v) = PosInf"
      with Finite nn show ?thesis by (simp add: strong_def)
    next
      assume "\<exists>y. to_float r (sqrt v) = Finite y \<and> tiny \<le> y \<and> Rep_rounding r (sqrt v) = y"
      then obtain y where y: "to_float r (sqrt v) = Finite y" "Rep_rounding r (sqrt v) = y"
        by blast
      from rounding_mono[OF s, of r] y have "root_tiny \<le> y"
        by (simp add: rounding_root_tiny)
      with y Finite nn show ?thesis by (simp add: strong_def)
    qed
  qed
qed (use assms in \<open>auto simp: settled_def strong_def\<close>)

lemma fmul_strong_nonzero:
  assumes "strong a" "strong b" "a \<noteq> Finite 0" "b \<noteq> Finite 0"
  shows "fmul r a b \<noteq> Finite 0"
proof (cases a; cases b)
  fix u v assume ab: "a = Finite u" "b = Finite v"
  with assms have "root_tiny \<le> u" "root_tiny \<le> v" by (auto simp: strong_def)
  moreover have "0 \<le> root_tiny" using bounds by simp
  ultimately have "root_tiny * root_tiny \<le> u * v" by (intro mult_mono) auto
  with bounds have "half_tiny < u * v" by simp
  from to_float_pos[OF this, of r] bounds ab show ?thesis by auto
qed (use assms bounds in \<open>auto simp: strong_def\<close>)

lemma fdiv_total: "d \<noteq> Finite 0 \<Longrightarrow> \<exists>q. fdiv r x d = Inr q"
  by (cases x; cases d) auto

lemma cosine_similarity_total: "\<exists>f. cosine_similarity r a b = Inr f"
proof -
  obtain na where na: "fsqrt r (fsum r (map (\<lambda>x. fmul r x x) a)) = Inr na" "strong na"
    using fsqrt_settled[OF squares_settled] by blast
  obtain nb where nb: "fsqrt r (fsum r (map (\<lambda>x. fmul r x x) b)) = Inr nb" "strong nb"
    using fsqrt_settled[OF squares_settled] by blast
  show ?thesis
  proof (cases "na = Finite 0 \<or> nb = Finite 0")
    case True
    with na nb show ?thesis by (auto simp: cosine_similarity_def)
  next
    case False
    with na nb have "fmul r na nb \<noteq> Finite 0" by (intro fmul_strong_nonzero) auto
    from fdiv_total[OF this] False na nb show ?thesis
      by (auto simp: cosine_similarity_def Let_def)
  qed
qed

subsection \<open>Zero vectors\<close>

lemma to_float_zero: "to_float r 0 = Finite 0"
proof -
  have "0 < huge" using bounds by linarith
  with bounds(1) show ?thesis by (simp add: to_float_def)
qed

lemma foldl_fadd_zeros:
  "\<forall>z\<in>set zs. z = Finite 0 \<Longrightarrow> foldl (fadd r) (Finite 0) zs = Finite 0"
  by (induction zs) (simp_all add: to_float_zero)

lemma norm_zero_vector:
  assumes "\<forall>x\<in>set a. x = Finite 0"
  shows "fsqrt r (fsum r (map (\<lambda>x. fmul r x x) a)) = Inr (Finite 0)"
proof -
  have "fmul r x x = Finite 0" if "x \<in> set a" for x
    using that assms by (auto simp: to_float_zero)
  then have "\<forall>z\<in>set (map (\<lambda>x. fmul r x x) a). z = Finite 0"
    by auto
  then have "fsum r (map (\<lambda>x. fmul r x x) a) = Finite 0"
    unfolding fsum_def by (rule foldl_fadd_zeros)
  then show ?thesis by (simp add: to_float_zero)
qed

lemma cosine_similarity_zero_norm:
  assumes "fsqrt r (fsum r (map (\<lambda>x. fmul r x x) a)) = Inr (Finite 0) \<or>
           fsqrt r (fsum r (map (\<lambda>x. fmul r x x) b)) = Inr (Finite 0)"
  shows "cosine_similarity r a b = Inr (Finite 0)"
proof -
  obtain na where na: "fsqrt r (fsum r (map (\<lambda>x. fmul r x x) a)) = Inr na"
    using fsqrt_settled[OF squares_settled] by blast
  obtain nb where nb: "fsqrt r (fsum r (map (\<lambda>x. fmul r x x) b)) = Inr nb"
    using fsqrt_settled[OF squares_settled] by blast
  from assms na nb have "na = Finite 0 \<or> nb = Finite 0" by auto
  with na nb show ?thesis by (simp add: cosine_similarity_def)
qed

lemma cosine_similarity_quotient:
  assumes "fsqrt r (fsum r (map (\<lambda>x. fmul r x x) a)) = Inr na"
    and "fsqrt r (fsum r (map (\<lambda>x. fmul r x x) b)) = Inr nb"
    and "na \<noteq> Finite 0" "nb \<noteq> Finite 0"
  shows "cosine_similarity r a b =
    fdiv r (fsum r (map (\<lambda>(x, y). fmul r x y) (zip a b))) (fmul r na nb)"
  using assms by (simp add: cosine_similarity_def)

subsection \<open>Overflow and underflow\<close>

lemma huge_le_square: "huge \<le> big * big"
proof -
  have "(2::real) ^ 700 * 2 ^ 700 = 2 ^ (700 + 700)" by (rule power_add[symmetric])
  moreover have "(2::real) ^ 1024 \<le> 2 ^ (700 + 700)" by (rule power_increasing) simp_all
  ultimately show ?thesis unfolding huge_def big_def by simp
qed

lemma to_float_big_square: "to_float r (big * big) = PosInf"
proof -
  have "0 < big" by (simp add: big_def)
  then have "0 < big * big" by simp
  with huge_le_square show ?thesis by (simp add: to_float_def signed_inf_def)
qed

lemma cosine_similarity_overflow:
  "cosine_similarity r [Finite big] [Finite big] = Inr NaN"
  by (simp add: cosine_similarity_def fsum_def to_float_big_square)

lemma square_le_half_tiny: "small * small \<le> half_tiny"
proof -
  have "(2::real) ^ 600 * 2 ^ 600 = 2 ^ (600 + 600)" by (rule power_add[symmetric])
  moreover have "(2::real) ^ 1075 \<le> 2 ^ (600 + 600)" by (rule power_increasing) simp_all
  ultimately have "(2::real) ^ 1075 \<le> 2 ^ 600 * 2 ^ 600" by simp
  moreover have "(0::real) < 2 ^ 1075" by simp
  ultimately have "1 / (2 ^ 600 * 2 ^ 600) \<le> 1 / (2::real) ^ 1075"
    by (intro frac_le) simp_all
  then show ?thesis unfolding half_tiny_def small_def by (simp only: times_divide_times_eq mult_1)
qed

lemma cosine_similarity_underflow:
  "cosine_similarity r [Finite small] [Finite small] = Inr (Finite 0)"
proof -
  have nn: "0 \<le> small * small" by simp
  have "half_tiny < huge" using bounds by linarith
  with square_le_half_tiny nn have "to_float r (small * small) = Finite 0"
    unfolding to_float_def by (simp only: abs_of_nonneg) auto
  then have "fsqrt r (fsum r (map (\<lambda>x. fmul r x x) [Finite small])) = Inr (Finite 0)"
    by (simp add: fsum_def to_float_zero)
  then show ?thesis by (intro cosine_similarity_zero_norm) simp
qed

subsection \<open>Exact runs\<close>

lemma foldl_fadd_exact:
  "list_all (exact r) (partial_sums acc zs) \<Longrightarrow>
   foldl (fadd r) (Finite acc) (map Finite zs) = Finite (acc + sum_list zs)"
  by (induction zs arbitrary: acc) (simp_all add: exact_def add.assoc)

lemma fsum_exact:
  assumes "exact_terms r zs"
  shows "fsum r (map (to_float r) zs) = Finite (sum_list zs)"
proof -
  from assms have m: "map (to_float r) zs = map Finite zs"
    by (simp add: exact_terms_def list_all_iff exact_def)
  from assms have "foldl (fadd r) (Finite 0) (map Finite zs) = Finite (0 + sum_list zs)"
    by (intro foldl_fadd_exact) (simp add: exact_terms_def)
  then show ?thesis unfolding fsum_def m by simp
qed

lemma dot_self: "dot xs xs = sum_list (map (\<lambda>x. x * x) xs)"
  by (simp add: dot_def zip_same_conv_map comp_def)

lemma dot_self_nonneg: "0 \<le> dot xs xs"
  unfolding dot_self by (rule sum_list_nonneg) auto

lemma magnitude_square: "magnitude xs * magnitude xs = dot xs xs"
  unfolding magnitude_def using dot_self_nonneg[of xs] by simp

lemma squares_exact:
  assumes "exact_terms r (map (\<lambda>x. x * x) xs)" "exact r (magnitude xs)"
  shows "fsqrt r (fsum r (map (\<lambda>x. fmul r x x) (map Finite xs))) = Inr (Finite (magnitude xs))"
proof -
  have "map (\<lambda>x. fmul r x x) (map Finite xs) = map (to_float r) (map (\<lambda>x. x * x) xs)"
    by simp
  with fsum_exact[OF assms(1)]
  have "fsum r (map (\<lambda>x. fmul r x x) (map Finite xs)) = Finite (dot xs xs)"
    by (simp only: dot_self)
  with assms(2) dot_self_nonneg[of xs] show ?thesis
    by (simp add: magnitude_def exact_def)
qed

lemma cosine_similarity_exact:
  assumes e: "exact_run r xs ys" and nz: "magnitude xs \<noteq> 0" "magnitude ys \<noteq> 0"
  shows "cosine_similarity r (map Finite xs) (map Finite ys)
           = Inr (Finite (dot xs ys / (magnitude xs * magnitude ys)))"
proof -
  from e have na: "fsqrt r (fsum r (map (\<lambda>x. fmul r x x) (map Finite xs)))
      = Inr (Finite (magnitude xs))"
    by (intro squares_exact) (simp_all add: exact_run_def)
  from e have nb: "fsqrt r (fsum r (map (\<lambda>x. fmul r x x) (map Finite ys)))
      = Inr (Finite (magnitude ys))"
    by (intro squares_exact) (simp_all add: exact_run_def)
  have "map (\<lambda>(x, y). fmul r x y) (zip (map Finite xs) (map Finite ys))
      = map (to_float r) (map (\<lambda>(x, y). x * y) (zip xs ys))"
    by (induction xs ys rule: list_induct2') simp_all
  with e fsum_exact[of r "map (\<lambda>(x, y). x * y) (zip xs ys)"]
  have d: "fsum r (map (\<lambda>(x, y). fmul r x y) (zip (map Finite xs) (map Finite ys)))
      = Finite (dot xs ys)"
    by (simp only: dot_def exact_run_def)
  from e have m: "to_float r (magnitude xs * magnitude ys)
      = Finite (magnitude xs * magnitude ys)"
    by (simp add: exact_run_def exact_def)
  from e have q: "to_float r (dot xs ys / (magnitude xs * magnitude ys))
      = Finite (dot xs ys / (magnitude xs * magnitude ys))"
    by (simp add: exact_run_def exact_def)
  from nz show ?thesis
    by (simp add: cosine_similarity_quotient[OF na nb] d m q)
qed

lemma dot_uminus: "dot xs (map uminus xs) = - dot xs xs"
proof -
  have "map (\<lambda>(x, y). x * y) (zip xs (map uminus xs)) = map (\<lambda>x. - (x * x)) xs"
    by (induction xs) simp_all
  moreover have "sum_list (map (\<lambda>x. - (x * x)) xs) = - sum_list (map (\<lambda>x. x * x) xs)"
    by (induction xs) simp_all
  ultimately show ?thesis by (simp add: dot_def dot_self[unfolded dot_def])
qed

lemma magnitude_uminus: "magnitude (map uminus xs) = magnitude xs"
  by (simp add: magnitude_def dot_self comp_def)

subsection \<open>The plain rounding\<close>

lemma to_float_plain:
  assumes "tiny \<le> \<bar>x\<bar>" "\<bar>x\<bar> < huge"
  shows "to_float plain_rounding x = Finite x"
proof -
  from assms(1) have "Rep_rounding plain_rounding x = x"
    by (auto simp: plain_rounding.rep_eq)
  with assms bounds(2) show ?thesis by (simp add: to_float_def)
qed

lemma exact_plain:
  assumes "x = 0 \<or> 1 / 1024 \<le> \<bar>x\<bar>" "\<bar>x\<bar> \<le> 1024"
  shows "exact plain_rounding x"
proof (cases "x = 0")
  case True
  then show ?thesis by (simp add: exact_def to_float_zero)
next
  case False
  have "(2::real) ^ 10 \<le> 2 ^ 1074" by (rule power_increasing) simp_all
  then have "1 / (2::real) ^ 1074 \<le> 1 / 2 ^ 10"
    by (intro divide_left_mono mult_pos_pos) simp_all
  then have t: "tiny \<le> 1 / 1024" by (simp add: tiny_def)
  have "(2::real) ^ 10 < 2 ^ 1024" by (rule power_strict_increasing) simp_all
  then have h: "1024 < huge" by (simp add: huge_def)
  from False assms t h show ?thesis
    unfolding exact_def by (intro to_float_plain) auto
qed

subsection \<open>The result\<close>

text \<open>
  C9, as the claim states it, fails. The square of \<open>big = 2^700\<close> is no finite float:
  the dot product and both magnitudes are infinite, and the result is NaN, whatever the
  rounding. The square of \<open>small = 2^(-600)\<close> is rounded to zero: the vector has a
  magnitude that is not zero, the computed magnitude is zero, and the result is 0 and
  not 1.
\<close>

theorem cosine_similarity_nan_on_overflow:
  "\<forall>r. cosine_similarity r [Finite big] [Finite big] = Inr NaN \<and>
       magnitude [small] \<noteq> 0 \<and>
       cosine_similarity r [Finite small] [Finite small] = Inr (Finite 0)"
proof -
  have "magnitude [small] \<noteq> 0"
    by (simp add: magnitude_def dot_def small_def)
  then show ?thesis
    by (simp only: cosine_similarity_overflow cosine_similarity_underflow simp_thms)
qed

text \<open>
  C9, amended. \<open>_cosine_similarity\<close> raises nothing, on every two lists of floats: the
  square roots are taken of sums of squares, and the division is reached only with a
  divisor that is not zero. When a vector has only zeros, and whenever a computed
  magnitude is zero, the result is exactly 0. Otherwise it is the float quotient of the
  computed dot product and the float product of the computed magnitudes, which can be
  NaN. When every operation of the run is exact, the result is the dot product divided
  by the product of the magnitudes: 1 for a vector and itself, -1 for a vector and its
  negation.
\<close>

theorem cosine_similarity_result:
  "(\<exists>f. cosine_similarity r a b = Inr f) \<and>
   ((\<forall>x\<in>set a. x = Finite 0) \<or> (\<forall>x\<in>set b. x = Finite 0) \<longrightarrow>
      cosine_similarity r a b = Inr (Finite 0)) \<and>
   (fsqrt r (fsum r (map (\<lambda>x. fmul r x x) a)) = Inr (Finite 0) \<or>
    fsqrt r (fsum r (map (\<lambda>x. fmul r x x) b)) = Inr (Finite 0) \<longrightarrow>
      cosine_similarity r a b = Inr (Finite 0)) \<and>
   (\<forall>norm_a norm_b.
      fsqrt r (fsum r (map (\<lambda>x. fmul r x x) a)) = Inr norm_a \<and>
      fsqrt r (fsum r (map (\<lambda>x. fmul r x x) b)) = Inr norm_b \<and>
      norm_a \<noteq> Finite 0 \<and> norm_b \<noteq> Finite 0 \<longrightarrow>
      cosine_similarity r a b =
        fdiv r (fsum r (map (\<lambda>(x, y). fmul r x y) (zip a b))) (fmul r norm_a norm_b)) \<and>
   (exact_run r xs ys \<and> magnitude xs \<noteq> 0 \<and> magnitude ys \<noteq> 0 \<longrightarrow>
      cosine_similarity r (map Finite xs) (map Finite ys)
        = Inr (Finite (dot xs ys / (magnitude xs * magnitude ys)))) \<and>
   (exact_run r zs zs \<and> magnitude zs \<noteq> 0 \<longrightarrow>
      cosine_similarity r (map Finite zs) (map Finite zs) = Inr (Finite 1)) \<and>
   (exact_run r zs (map uminus zs) \<and> magnitude zs \<noteq> 0 \<longrightarrow>
      cosine_similarity r (map Finite zs) (map Finite (map uminus zs)) = Inr (Finite (- 1)))"
proof (intro conjI impI allI)
  show "\<exists>f. cosine_similarity r a b = Inr f" by (rule cosine_similarity_total)
next
  assume "(\<forall>x\<in>set a. x = Finite 0) \<or> (\<forall>x\<in>set b. x = Finite 0)"
  then have "fsqrt r (fsum r (map (\<lambda>x. fmul r x x) a)) = Inr (Finite 0) \<or>
    fsqrt r (fsum r (map (\<lambda>x. fmul r x x) b)) = Inr (Finite 0)"
    using norm_zero_vector[of a r] norm_zero_vector[of b r] by blast
  then show "cosine_similarity r a b = Inr (Finite 0)" by (rule cosine_similarity_zero_norm)
next
  assume "fsqrt r (fsum r (map (\<lambda>x. fmul r x x) a)) = Inr (Finite 0) \<or>
    fsqrt r (fsum r (map (\<lambda>x. fmul r x x) b)) = Inr (Finite 0)"
  then show "cosine_similarity r a b = Inr (Finite 0)" by (rule cosine_similarity_zero_norm)
next
  fix norm_a norm_b
  assume "fsqrt r (fsum r (map (\<lambda>x. fmul r x x) a)) = Inr norm_a \<and>
      fsqrt r (fsum r (map (\<lambda>x. fmul r x x) b)) = Inr norm_b \<and>
      norm_a \<noteq> Finite 0 \<and> norm_b \<noteq> Finite 0"
  then show "cosine_similarity r a b =
        fdiv r (fsum r (map (\<lambda>(x, y). fmul r x y) (zip a b))) (fmul r norm_a norm_b)"
    by (intro cosine_similarity_quotient) simp_all
next
  assume "exact_run r xs ys \<and> magnitude xs \<noteq> 0 \<and> magnitude ys \<noteq> 0"
  then show "cosine_similarity r (map Finite xs) (map Finite ys)
        = Inr (Finite (dot xs ys / (magnitude xs * magnitude ys)))"
    by (intro cosine_similarity_exact) simp_all
next
  assume a: "exact_run r zs zs \<and> magnitude zs \<noteq> 0"
  then have "cosine_similarity r (map Finite zs) (map Finite zs)
        = Inr (Finite (dot zs zs / (magnitude zs * magnitude zs)))"
    by (intro cosine_similarity_exact) simp_all
  moreover from a have "dot zs zs \<noteq> 0" using magnitude_square[of zs] by auto
  ultimately show "cosine_similarity r (map Finite zs) (map Finite zs) = Inr (Finite 1)"
    by (simp add: magnitude_square)
next
  assume a: "exact_run r zs (map uminus zs) \<and> magnitude zs \<noteq> 0"
  then have "cosine_similarity r (map Finite zs) (map Finite (map uminus zs))
        = Inr (Finite (dot zs (map uminus zs) / (magnitude zs * magnitude (map uminus zs))))"
    by (intro cosine_similarity_exact) (simp_all add: magnitude_uminus)
  moreover from a have "dot zs zs \<noteq> 0" using magnitude_square[of zs] by auto
  ultimately show "cosine_similarity r (map Finite zs) (map Finite (map uminus zs))
        = Inr (Finite (- 1))"
    by (simp add: magnitude_square magnitude_uminus dot_uminus)
qed

lemma magnitude_3_4: "magnitude [3, 4] = 5"
proof -
  have "sqrt (5 * 5) = 5" by (simp only: real_sqrt_abs2 abs_numeral)
  then show ?thesis by (simp add: magnitude_def dot_def)
qed

lemma magnitude_ones: "magnitude [1, 1, 1, 1] = 2"
proof -
  have "sqrt (2 * 2) = 2" by (simp only: real_sqrt_abs2 abs_numeral)
  then show ?thesis by (simp add: magnitude_def dot_def)
qed

lemma magnitude_unit: "magnitude [1, 0, 0, 0] = 1"
  by (simp add: magnitude_def dot_def)

theorem cosine_similarity_result_witness:
  "cosine_similarity plain_rounding [Finite 0, Finite 0] [Finite 3, Finite 4] = Inr (Finite 0) \<and>
   fsqrt plain_rounding (fsum plain_rounding (map (\<lambda>x. fmul plain_rounding x x) [Finite 0, Finite 0]))
     = Inr (Finite 0) \<and>
   fsqrt plain_rounding (fsum plain_rounding (map (\<lambda>x. fmul plain_rounding x x) [Finite 3, Finite 4]))
     = Inr (Finite 5) \<and>
   exact_run plain_rounding [1, 1, 1, 1] [1, 0, 0, 0] \<and>
   magnitude [1, 1, 1, 1] = 2 \<and> magnitude [1, 0, 0, 0] = 1 \<and>
   cosine_similarity plain_rounding [Finite 1, Finite 1, Finite 1, Finite 1]
     [Finite 1, Finite 0, Finite 0, Finite 0] = Inr (Finite (1 / 2)) \<and>
   exact_run plain_rounding [3, 4] [3, 4] \<and> magnitude [3, 4] = 5 \<and>
   cosine_similarity plain_rounding [Finite 3, Finite 4] [Finite 3, Finite 4] = Inr (Finite 1) \<and>
   exact_run plain_rounding [3, 4] [- 3, - 4] \<and>
   cosine_similarity plain_rounding [Finite 3, Finite 4] [Finite (- 3), Finite (- 4)]
     = Inr (Finite (- 1))"
proof -
  note m = magnitude_3_4 magnitude_ones magnitude_unit
  have mm: "magnitude [- 3, - 4] = 5"
    using magnitude_uminus[of "[3, 4]"] magnitude_3_4 by simp
  have e1: "exact_run plain_rounding [1, 1, 1, 1] [1, 0, 0, 0]"
    by (simp add: exact_run_def exact_terms_def m dot_def exact_plain)
  have e2: "exact_run plain_rounding [3, 4] [3, 4]"
    by (simp add: exact_run_def exact_terms_def m dot_def exact_plain)
  have e3: "exact_run plain_rounding [3, 4] [- 3, - 4]"
    by (simp add: exact_run_def exact_terms_def m mm dot_def exact_plain)
  have z: "fsqrt plain_rounding
      (fsum plain_rounding (map (\<lambda>x. fmul plain_rounding x x) [Finite 0, Finite 0]))
     = Inr (Finite 0)"
    by (rule norm_zero_vector) simp
  have n: "fsqrt plain_rounding
      (fsum plain_rounding (map (\<lambda>x. fmul plain_rounding x x) [Finite 3, Finite 4]))
     = Inr (Finite 5)"
    using squares_exact[of plain_rounding "[3, 4]"] e2
    by (simp add: exact_run_def m)
  from cosine_similarity_result[of plain_rounding "[Finite 0, Finite 0]" "[Finite 3, Finite 4]"
      "[1, 1, 1, 1]" "[1, 0, 0, 0]" "[3, 4]"]
    cosine_similarity_result[of plain_rounding "[Finite 3, Finite 4]" "[Finite 3, Finite 4]"
      "[1, 1, 1, 1]" "[1, 0, 0, 0]" "[3, 4]"]
    e1 e2 e3 z n
  show ?thesis by (simp add: m mm dot_def)
qed

section \<open>The index: consistency, removal, search\<close>

subsection \<open>What the calls keep\<close>

lemma map_of_append_doc_chunk:
  "map_of (append_doc_chunk d i dc) =
     (map_of dc)(d \<mapsto> (case map_of dc d of None \<Rightarrow> [] | Some ids \<Rightarrow> ids) @ [i])"
  by (auto simp: append_doc_chunk_def Let_def update_conv' split: option.splits)

lemma distinct_append_doc_chunk:
  "distinct (map fst dc) \<Longrightarrow> distinct (map fst (append_doc_chunk d i dc))"
  by (auto simp: append_doc_chunk_def Let_def distinct_update split: option.splits)

lemma maps_inv_add:
  assumes "maps_inv C E D"
  shows "maps_inv (C(c_id chunk \<mapsto> chunk)) (E(c_id chunk \<mapsto> embedding))
           (D(c_doc_id chunk \<mapsto> (case D (c_doc_id chunk) of None \<Rightarrow> [] | Some ids \<Rightarrow> ids)
                 @ [c_id chunk]))"
  unfolding maps_inv_def
proof (intro conjI allI impI)
  show "dom (C(c_id chunk \<mapsto> chunk)) = dom (E(c_id chunk \<mapsto> embedding))"
    using assms by (simp add: maps_inv_def)
next
  fix i c assume a: "(C(c_id chunk \<mapsto> chunk)) i = Some c"
  show "c_id c = i"
    using a assms by (auto simp: maps_inv_def split: if_splits)
  show "\<exists>ids. (D(c_doc_id chunk \<mapsto> (case D (c_doc_id chunk) of None \<Rightarrow> [] | Some ids \<Rightarrow> ids)
                 @ [c_id chunk])) (c_doc_id c) = Some ids \<and> i \<in> set ids"
  proof (cases "i = c_id chunk")
    case True
    with a show ?thesis by simp
  next
    case False
    with a have "C i = Some c" by simp
    with assms obtain ids where "D (c_doc_id c) = Some ids" "i \<in> set ids"
      unfolding maps_inv_def by blast
    then show ?thesis by auto
  qed
qed

lemma index_inv_add_pair:
  assumes "index_inv s"
  shows "index_inv
       (s\<lparr>idx_chunks := AList.update (c_id chunk) chunk (idx_chunks s),
          idx_embeddings := AList.update (c_id chunk) embedding (idx_embeddings s),
          idx_doc_chunks := append_doc_chunk (c_doc_id chunk) (c_id chunk) (idx_doc_chunks s)\<rparr>)"
  using assms maps_inv_add[of "map_of (idx_chunks s)" "map_of (idx_embeddings s)"
      "map_of (idx_doc_chunks s)" chunk embedding]
  by (simp add: index_inv_def distinct_update distinct_append_doc_chunk update_conv'
      map_of_append_doc_chunk)

lemma index_inv_add_pairs: "index_inv s \<Longrightarrow> index_inv (add_pairs s ps)"
proof (induction ps arbitrary: s)
  case Nil
  then show ?case by simp
next
  case (Cons p ps)
  obtain chunk embedding where p: "p = (chunk, embedding)" by (cases p)
  from Cons.prems show ?case
    unfolding p add_pairs.simps by (intro Cons.IH index_inv_add_pair)
qed

lemma pop_chunks_fields:
  "idx_doc_chunks (pop_chunks s ids) = idx_doc_chunks s"
  "map_of (idx_chunks (pop_chunks s ids)) = map_of (idx_chunks s) |` (- set ids)"
  "map_of (idx_embeddings (pop_chunks s ids)) = map_of (idx_embeddings s) |` (- set ids)"
  "distinct (map fst (idx_chunks s)) \<Longrightarrow> distinct (map fst (idx_chunks (pop_chunks s ids)))"
proof (induction ids arbitrary: s)
  case Nil
  { case 1 show ?case by simp }
  { case 2 show ?case by simp }
  { case 3 show ?case by simp }
  { case 4 then show ?case by simp }
next
  case (Cons i ids)
  { case 1 show ?case by (simp add: Cons.IH(1)) }
  { case 2 show ?case
      by (auto simp: Cons.IH(2) delete_conv' restrict_map_def fun_eq_iff) }
  { case 3 show ?case
      by (auto simp: Cons.IH(3) delete_conv' restrict_map_def fun_eq_iff) }
  { case 4 then show ?case by (simp add: Cons.IH(4) distinct_delete) }
qed

lemma maps_inv_remove:
  assumes "maps_inv C E D" and "D d = Some ids"
  shows "maps_inv (C |` (- set ids)) (E |` (- set ids)) (D(d := None))"
  unfolding maps_inv_def
proof (intro conjI allI impI)
  show "dom (C |` (- set ids)) = dom (E |` (- set ids))"
    using assms by (simp add: maps_inv_def)
next
  fix i c assume a: "(C |` (- set ids)) i = Some c"
  then have i: "i \<notin> set ids" and c: "C i = Some c"
    by (auto simp: restrict_map_def split: if_splits)
  from c assms show "c_id c = i" by (simp add: maps_inv_def)
  from c assms obtain ids' where ids': "D (c_doc_id c) = Some ids'" "i \<in> set ids'"
    unfolding maps_inv_def by blast
  with i assms(2) have "c_doc_id c \<noteq> d" by auto
  with ids' show "\<exists>ids. (D(d := None)) (c_doc_id c) = Some ids \<and> i \<in> set ids" by simp
qed

lemma index_inv_remove:
  assumes "index_inv s"
  shows "index_inv (remove_document s d)"
proof (cases "map_of (idx_doc_chunks s) d")
  case None
  with assms show ?thesis by (simp add: remove_document_def)
next
  case (Some ids)
  from assms maps_inv_remove[of "map_of (idx_chunks s)" "map_of (idx_embeddings s)"
      "map_of (idx_doc_chunks s)" d ids] Some
  have "index_inv ((pop_chunks s ids)\<lparr>idx_doc_chunks := AList.delete d (idx_doc_chunks s)\<rparr>)"
    by (simp add: index_inv_def pop_chunks_fields distinct_delete delete_conv')
  with Some show ?thesis by (simp add: remove_document_def)
qed

lemma index_inv_apply_op: "index_inv s \<Longrightarrow> index_inv (apply_op s opn)"
  by (cases opn)
     (auto simp: apply_op_def add_chunks_def index_inv_add_pairs index_inv_remove
       split: sum.splits if_splits)

lemma run_snoc: "run (ops @ [opn]) = apply_op (run ops) opn"
  by (simp add: run_def)

lemma index_inv_run: "index_inv (run ops)"
proof (induction ops rule: rev_induct)
  case Nil
  show ?case by (simp add: run_def index_inv_def empty_index_def maps_inv_def)
next
  case (snoc opn ops)
  then show ?case by (simp add: run_snoc index_inv_apply_op)
qed

lemma maps_listed_add:
  assumes L: "maps_listed U C D" and inv: "maps_inv C E D" and U: "chunk \<in> U"
    and own: "\<forall>c\<in>U. \<forall>c'\<in>U. c_id c = c_id c' \<longrightarrow> c_doc_id c = c_doc_id c'"
  shows "maps_listed U (C(c_id chunk \<mapsto> chunk))
           (D(c_doc_id chunk \<mapsto> (case D (c_doc_id chunk) of None \<Rightarrow> [] | Some ids \<Rightarrow> ids)
                 @ [c_id chunk]))"
  unfolding maps_listed_def
proof (intro conjI allI impI ballI)
  fix i c assume "(C(c_id chunk \<mapsto> chunk)) i = Some c"
  with L U show "c \<in> U" by (auto simp: maps_listed_def split: if_splits)
next
  fix d ids i
  assume d: "(D(c_doc_id chunk \<mapsto> (case D (c_doc_id chunk) of None \<Rightarrow> [] | Some ids \<Rightarrow> ids)
                 @ [c_id chunk])) d = Some ids"
    and i: "i \<in> set ids"
  show "\<exists>c. (C(c_id chunk \<mapsto> chunk)) i = Some c \<and> c_doc_id c = d"
  proof (cases "i = c_id chunk \<and> d = c_doc_id chunk")
    case True
    then show ?thesis by simp
  next
    case False
    from d i False obtain ids' where old: "D d = Some ids'" "i \<in> set ids'"
      by (auto split: if_splits option.splits)
    with L obtain c' where c': "C i = Some c'" "c_doc_id c' = d"
      unfolding maps_listed_def by blast
    show ?thesis
    proof (cases "i = c_id chunk")
      case F: False
      with c' show ?thesis by simp
    next
      case True
      from c' L have "c' \<in> U" unfolding maps_listed_def by blast
      moreover from c' inv have "c_id c' = i" unfolding maps_inv_def by blast
      ultimately have "c_doc_id c' = c_doc_id chunk" using own U True by blast
      with c' True show ?thesis by simp
    qed
  qed
qed

lemma maps_listed_remove:
  assumes L: "maps_listed U C D" and d: "D d = Some ids"
  shows "maps_listed U (C |` (- set ids)) (D(d := None))"
  unfolding maps_listed_def
proof (intro conjI allI impI ballI)
  fix i c assume "(C |` (- set ids)) i = Some c"
  with L show "c \<in> U" by (auto simp: maps_listed_def restrict_map_def split: if_splits)
next
  fix d' ids' i
  assume a: "(D(d := None)) d' = Some ids'" and i: "i \<in> set ids'"
  then have ne: "d' \<noteq> d" and old: "D d' = Some ids'" by (auto split: if_splits)
  with L i obtain c where c: "C i = Some c" "c_doc_id c = d'" unfolding maps_listed_def by blast
  have "i \<notin> set ids"
  proof
    assume "i \<in> set ids"
    with L d obtain c' where "C i = Some c'" "c_doc_id c' = d" unfolding maps_listed_def by blast
    with c ne show False by simp
  qed
  with c show "\<exists>c. (C |` (- set ids)) i = Some c \<and> c_doc_id c = d'" by simp
qed

lemma listed_inv_add_pairs:
  assumes own: "\<forall>c\<in>U. \<forall>c'\<in>U. c_id c = c_id c' \<longrightarrow> c_doc_id c = c_doc_id c'"
  shows "index_inv s \<Longrightarrow> listed_inv U s \<Longrightarrow> fst ` set ps \<subseteq> U \<Longrightarrow> listed_inv U (add_pairs s ps)"
proof (induction ps arbitrary: s)
  case Nil
  then show ?case by simp
next
  case (Cons p ps)
  obtain chunk embedding where p: "p = (chunk, embedding)" by (cases p)
  let ?s = "s\<lparr>idx_chunks := AList.update (c_id chunk) chunk (idx_chunks s),
          idx_embeddings := AList.update (c_id chunk) embedding (idx_embeddings s),
          idx_doc_chunks := append_doc_chunk (c_doc_id chunk) (c_id chunk) (idx_doc_chunks s)\<rparr>"
  from Cons.prems p have U: "chunk \<in> U" "fst ` set ps \<subseteq> U" by auto
  have 1: "index_inv ?s" using Cons.prems(1) by (rule index_inv_add_pair)
  from Cons.prems(1) have "maps_inv (map_of (idx_chunks s)) (map_of (idx_embeddings s))
        (map_of (idx_doc_chunks s))" by (simp add: index_inv_def)
  from maps_listed_add[where E = "map_of (idx_embeddings s)", OF _ this U(1) own]
  have 2: "listed_inv U ?s"
    using Cons.prems(2) by (simp add: listed_inv_def update_conv' map_of_append_doc_chunk)
  from Cons.IH[OF 1 2 U(2)] show ?case by (simp add: p)
qed

lemma listed_inv_remove:
  assumes "listed_inv U s"
  shows "listed_inv U (remove_document s d)"
proof (cases "map_of (idx_doc_chunks s) d")
  case None
  with assms show ?thesis by (simp add: remove_document_def)
next
  case (Some ids)
  from assms maps_listed_remove[of U "map_of (idx_chunks s)" "map_of (idx_doc_chunks s)" d ids] Some
  show ?thesis
    by (simp add: remove_document_def listed_inv_def pop_chunks_fields delete_conv')
qed

lemma added_append: "added (ops @ ops') = added ops @ added ops'"
  by (induction ops rule: added.induct) auto

lemma listed_inv_apply_op:
  assumes own: "\<forall>c\<in>U. \<forall>c'\<in>U. c_id c = c_id c' \<longrightarrow> c_doc_id c = c_doc_id c'"
    and "index_inv s" "listed_inv U s" "set (added [opn]) \<subseteq> U"
  shows "listed_inv U (apply_op s opn)"
proof (cases opn)
  case (Add emb chunks)
  show ?thesis
  proof (cases "add_chunks emb s chunks")
    case (Inl e)
    with Add assms show ?thesis by (simp add: apply_op_def)
  next
    case (Inr r)
    then obtain s' n where r: "r = (s', n)" by (cases r)
    show ?thesis
    proof (cases "chunks = []")
      case True
      with Inr r Add assms show ?thesis by (simp add: apply_op_def add_chunks_def)
    next
      case False
      with Inr r obtain embeddings where "s' = add_pairs s (zip chunks embeddings)"
        by (auto simp: add_chunks_def split: sum.splits)
      moreover have "fst ` set (zip chunks embeddings) \<subseteq> U"
        using assms(4) Add by (auto dest: set_zip_leftD)
      ultimately have "listed_inv U s'"
        using listed_inv_add_pairs[OF own assms(2,3)] by blast
      with Inr r Add show ?thesis by (simp add: apply_op_def)
    qed
  qed
next
  case (Remove d)
  with assms show ?thesis by (simp add: apply_op_def listed_inv_remove)
qed

lemma listed_inv_run:
  assumes own: "\<forall>c\<in>U. \<forall>c'\<in>U. c_id c = c_id c' \<longrightarrow> c_doc_id c = c_doc_id c'"
  shows "set (added ops) \<subseteq> U \<Longrightarrow> listed_inv U (run ops)"
proof (induction ops rule: rev_induct)
  case Nil
  show ?case by (simp add: run_def listed_inv_def empty_index_def maps_listed_def)
next
  case (snoc opn ops)
  then have a: "listed_inv U (run ops)" and b: "set (added [opn]) \<subseteq> U"
    by (auto simp: added_append)
  show ?case
    unfolding run_snoc by (rule listed_inv_apply_op[OF own index_inv_run a b])
qed

subsection \<open>Consistency of the three dictionaries\<close>

text \<open>
  C2, as the claim states it, fails: two chunks with one id and two documents are
  added, and the first document is removed. The id is still listed under the second
  document and is the key of no chunk and of no embedding.
\<close>

theorem index_inconsistent_after_remove:
  "''c1'' \<in> listed_ids (run
      [Add (stub_embed (0::int)) [plain_chunk ''c1'' ''A'' ''x''],
       Add (stub_embed (0::int)) [plain_chunk ''c1'' ''B'' ''y''], Remove ''A'']) \<and>
   ''c1'' \<notin> chunk_keys (run
      [Add (stub_embed (0::int)) [plain_chunk ''c1'' ''A'' ''x''],
       Add (stub_embed (0::int)) [plain_chunk ''c1'' ''B'' ''y''], Remove ''A'']) \<and>
   ''c1'' \<notin> embedding_keys (run
      [Add (stub_embed (0::int)) [plain_chunk ''c1'' ''A'' ''x''],
       Add (stub_embed (0::int)) [plain_chunk ''c1'' ''B'' ''y''], Remove ''A''])"
  by code_simp

text \<open>
  The chunker itself gives one id to chunks of two documents, whatever the digest:
  page 0 of document \<open>a\<close> and the text of document \<open>a_p0\<close> both get the id of
  \<open>a_p0:0:0\<close>. Indexing both and removing \<open>a\<close> leaves the id listed and not stored.
\<close>

lemma pages_one: "returned (chunk_by_pages H [''x''] ''a'' 10 0) =
   [\<lparr>c_id = chunk_id H ''a_p0'' 0 0, c_doc_id = ''a'', c_text = ''x'', c_index = 0,
     c_start_char = 0, c_end_char = 10,
     c_metadata = [(''chunk_size'', 1), (''word_count'', 1), (''page'', 1)]\<rparr>]"
  by (simp add: returned_def chunk_by_pages_def chunk_text_def chunk_loop.simps strip_def
      isspace_def window_end_def py_slice_def slice_bound_def new_chunk_def reindex_def
      split_def str_nat.simps Let_def)

lemma text_one: "returned (chunk_text H ''x'' ''a_p0'' 10 0 [CHR 0x0A]) =
   [\<lparr>c_id = chunk_id H ''a_p0'' 0 0, c_doc_id = ''a_p0'', c_text = ''x'', c_index = 0,
     c_start_char = 0, c_end_char = 10,
     c_metadata = [(''chunk_size'', 1), (''word_count'', 1)]\<rparr>]"
  by (simp add: returned_def chunk_text_def chunk_loop.simps strip_def
      isspace_def window_end_def py_slice_def slice_bound_def new_chunk_def
      split_def Let_def)

lemma index_inconsistent_with_chunker_output:
  "chunk_id H ''a_p0'' 0 0 \<in> listed_ids (run
      [Add (stub_embed (0::int)) (returned (chunk_by_pages H [''x''] ''a'' 10 0)),
       Add (stub_embed (0::int)) (returned (chunk_text H ''x'' ''a_p0'' 10 0 [CHR 0x0A])),
       Remove ''a'']) \<and>
   chunk_id H ''a_p0'' 0 0 \<notin> chunk_keys (run
      [Add (stub_embed (0::int)) (returned (chunk_by_pages H [''x''] ''a'' 10 0)),
       Add (stub_embed (0::int)) (returned (chunk_text H ''x'' ''a_p0'' 10 0 [CHR 0x0A])),
       Remove ''a''])"
  unfolding pages_one text_one
  by (simp add: run_def apply_op_def add_chunks_def stub_embed_def append_doc_chunk_def
      remove_document_def listed_ids_def chunk_keys_def empty_index_def)

text \<open>
  C2, amended: after any sequence of calls the chunks and the embeddings have the same
  ids, and each of these ids is listed under a document; when no chunk id is added
  under two document ids, the listed ids are the ids of the chunks as well.
\<close>

theorem index_mappings_consistent:
  "chunk_keys (run ops) = embedding_keys (run ops) \<and>
   chunk_keys (run ops) \<subseteq> listed_ids (run ops) \<and>
   (ids_own_doc ops \<longrightarrow> listed_ids (run ops) = chunk_keys (run ops))"
proof -
  let ?s = "run ops"
  have inv: "index_inv ?s" by (rule index_inv_run)
  then have mi: "maps_inv (map_of (idx_chunks ?s)) (map_of (idx_embeddings ?s))
        (map_of (idx_doc_chunks ?s))" by (simp add: index_inv_def)
  have 1: "chunk_keys ?s = embedding_keys ?s"
    using mi by (simp add: maps_inv_def chunk_keys_def embedding_keys_def dom_map_of_conv_image_fst)
  have 2: "chunk_keys ?s \<subseteq> listed_ids ?s"
  proof
    fix i assume "i \<in> chunk_keys ?s"
    then have "i \<in> dom (map_of (idx_chunks ?s))"
      by (simp add: chunk_keys_def dom_map_of_conv_image_fst)
    then obtain c where "map_of (idx_chunks ?s) i = Some c" by blast
    with mi obtain ids where "map_of (idx_doc_chunks ?s) (c_doc_id c) = Some ids" "i \<in> set ids"
      unfolding maps_inv_def by blast
    then have "(c_doc_id c, ids) \<in> set (idx_doc_chunks ?s)" "i \<in> set ids"
      by (auto dest: map_of_SomeD)
    then show "i \<in> listed_ids ?s" by (force simp: listed_ids_def)
  qed
  have 3: "listed_ids ?s \<subseteq> chunk_keys ?s" if own: "ids_own_doc ops"
  proof
    fix i assume "i \<in> listed_ids ?s"
    then obtain d ids where "(d, ids) \<in> set (idx_doc_chunks ?s)" "i \<in> set ids"
      by (auto simp: listed_ids_def)
    with inv have d: "map_of (idx_doc_chunks ?s) d = Some ids" "i \<in> set ids"
      by (simp_all add: index_inv_def)
    from own have o: "\<forall>c\<in>set (added ops). \<forall>c'\<in>set (added ops).
        c_id c = c_id c' \<longrightarrow> c_doc_id c = c_doc_id c'"
      unfolding ids_own_doc_def .
    have "listed_inv (set (added ops)) ?s"
      by (rule listed_inv_run[OF o subset_refl])
    with d obtain c where "map_of (idx_chunks ?s) i = Some c"
      unfolding listed_inv_def maps_listed_def by blast
    then show "i \<in> chunk_keys ?s"
      by (auto simp: chunk_keys_def dest: map_of_SomeD intro: rev_image_eqI)
  qed
  from 1 2 3 show ?thesis by blast
qed

theorem index_mappings_consistent_witness:
  "ids_own_doc [Add (stub_embed (0::int))
        [plain_chunk ''c1'' ''A'' ''x'', plain_chunk ''c2'' ''B'' ''y''],
                Add (stub_embed (0::int)) [plain_chunk ''c1'' ''A'' ''x''], Remove ''B''] \<and>
   chunk_keys (run
     [Add (stub_embed (0::int))
        [plain_chunk ''c1'' ''A'' ''x'', plain_chunk ''c2'' ''B'' ''y''],
      Add (stub_embed (0::int)) [plain_chunk ''c1'' ''A'' ''x''], Remove ''B'']) = {''c1''} \<and>
   embedding_keys (run
     [Add (stub_embed (0::int))
        [plain_chunk ''c1'' ''A'' ''x'', plain_chunk ''c2'' ''B'' ''y''],
      Add (stub_embed (0::int)) [plain_chunk ''c1'' ''A'' ''x''], Remove ''B'']) = {''c1''} \<and>
   listed_ids (run
     [Add (stub_embed (0::int))
        [plain_chunk ''c1'' ''A'' ''x'', plain_chunk ''c2'' ''B'' ''y''],
      Add (stub_embed (0::int)) [plain_chunk ''c1'' ''A'' ''x''], Remove ''B'']) = {''c1''}"
proof -
  let ?ops = "[Add (stub_embed (0::int))
        [plain_chunk ''c1'' ''A'' ''x'', plain_chunk ''c2'' ''B'' ''y''],
      Add (stub_embed (0::int)) [plain_chunk ''c1'' ''A'' ''x''], Remove ''B'']"
  have own: "ids_own_doc ?ops" by code_simp
  have k: "chunk_keys (run ?ops) = {''c1''}" by code_simp
  from index_mappings_consistent[of ?ops] own k
  show ?thesis by simp
qed

subsection \<open>Removing a document\<close>

lemma chunk_keys_pop: "chunk_keys (pop_chunks s ids) = chunk_keys s - set ids"
  using pop_chunks_fields(2)[of s ids]
  by (metis chunk_keys_def dom_map_of_conv_image_fst dom_restrict set_map Diff_eq)

lemma embedding_keys_pop: "embedding_keys (pop_chunks s ids) = embedding_keys s - set ids"
  using pop_chunks_fields(3)[of s ids]
  by (metis embedding_keys_def dom_map_of_conv_image_fst dom_restrict set_map Diff_eq)

lemma total_chunks_card:
  "distinct (map fst (idx_chunks s)) \<Longrightarrow> total_chunks s = card (chunk_keys s)"
  by (simp add: total_chunks_def chunk_keys_def distinct_card del: set_map)

lemma map_of_list_documents:
  "map_of (list_documents s) d = map_option length (map_of (idx_doc_chunks s) d)"
  by (simp add: list_documents_def map_of_map)

text \<open>
  C3, as the claim states it, fails: a chunk id is added under document \<open>A\<close> and then
  under document \<open>B\<close>, and \<open>A\<close> is removed, which takes the chunk away. \<open>list_documents\<close>
  reports 1 chunk for \<open>B\<close>, and removing \<open>B\<close> leaves \<open>total_chunks\<close> at 0.
\<close>

theorem remove_document_count_differs:
  "list_documents (run
      [Add (stub_embed (0::int)) [plain_chunk ''c1'' ''A'' ''x''],
       Add (stub_embed (0::int)) [plain_chunk ''c1'' ''B'' ''y''], Remove ''A''])
     = [(''B'', 1)] \<and>
   total_chunks (run
      [Add (stub_embed (0::int)) [plain_chunk ''c1'' ''A'' ''x''],
       Add (stub_embed (0::int)) [plain_chunk ''c1'' ''B'' ''y''], Remove ''A''])
     = 0 \<and>
   total_chunks (remove_document (run
      [Add (stub_embed (0::int)) [plain_chunk ''c1'' ''A'' ''x''],
       Add (stub_embed (0::int)) [plain_chunk ''c1'' ''B'' ''y''], Remove ''A''])
      ''B'') = 0"
  by code_simp

text \<open>
  The count differs as well when the chunks of a document are added twice, as by
  chunking and indexing the same file twice: the id is listed twice and stored once,
  \<open>list_documents\<close> reports 2, and \<open>remove_document\<close> takes \<open>total_chunks\<close> from 1 to 0.
\<close>

lemma readded_chunk_counted_twice:
  "list_documents (run
      [Add (stub_embed (0::int)) [plain_chunk ''c1'' ''A'' ''x''],
       Add (stub_embed (0::int)) [plain_chunk ''c1'' ''A'' ''x'']])
     = [(''A'', 2)] \<and>
   total_chunks (run
      [Add (stub_embed (0::int)) [plain_chunk ''c1'' ''A'' ''x''],
       Add (stub_embed (0::int)) [plain_chunk ''c1'' ''A'' ''x'']]) = 1 \<and>
   total_chunks (remove_document (run
      [Add (stub_embed (0::int)) [plain_chunk ''c1'' ''A'' ''x''],
       Add (stub_embed (0::int)) [plain_chunk ''c1'' ''A'' ''x'']]) ''A'') = 0"
  by code_simp

text \<open>
  The count of \<open>remove_document\<close> in general: \<open>total_chunks\<close> goes down by the number of
  distinct ids of the document's list that were keys of chunks.
\<close>

lemma remove_document_total:
  assumes known: "map_of (idx_doc_chunks (run ops)) doc_id = Some ids"
  shows "total_chunks (remove_document (run ops) doc_id)
           + card (set ids \<inter> chunk_keys (run ops))
         = total_chunks (run ops)"
proof -
  let ?s = "run ops"
  let ?s' = "remove_document ?s doc_id"
  have inv: "index_inv ?s" by (rule index_inv_run)
  have inv': "index_inv ?s'" using inv by (rule index_inv_remove)
  have s': "?s' = (pop_chunks ?s ids)\<lparr>idx_doc_chunks := AList.delete doc_id (idx_doc_chunks ?s)\<rparr>"
    using known by (simp add: remove_document_def)
  have ck: "chunk_keys ?s' = chunk_keys ?s - set ids"
    unfolding s' using chunk_keys_pop[of ?s ids] by (simp add: chunk_keys_def)
  have fin: "finite (chunk_keys ?s)" by (simp add: chunk_keys_def)
  have t: "total_chunks ?s = card (chunk_keys ?s)"
    using inv by (simp add: total_chunks_card index_inv_def)
  have t': "total_chunks ?s' = card (chunk_keys ?s - set ids)"
    using inv' ck by (simp add: total_chunks_card index_inv_def)
  have "card (chunk_keys ?s - set ids) + card (chunk_keys ?s \<inter> set ids) = card (chunk_keys ?s)"
    using fin by (metis card_Diff_subset_Int card_mono finite_Int inf_le1 le_add_diff_inverse2)
  then show ?thesis
    using t t' by (simp add: Int_commute)
qed

text \<open>
  C3, amended: on an unknown \<open>doc_id\<close>, \<open>remove_document\<close> returns the index as it is. On
  a known one, the document is no longer listed, no id of its list is the key of a
  chunk or of an embedding, and no stored chunk has this \<open>doc_id\<close>; when the list has
  no id twice and each of its ids was the key of a chunk, \<open>total_chunks\<close> has decreased
  by the count that \<open>list_documents\<close> reported for the document, the length of the
  list.
\<close>

theorem remove_document_effect:
  "(map_of (idx_doc_chunks (run ops)) doc_id = None \<longrightarrow>
      remove_document (run ops) doc_id = run ops) \<and>
   (\<forall>ids. map_of (idx_doc_chunks (run ops)) doc_id = Some ids \<longrightarrow>
      map_of (list_documents (run ops)) doc_id = Some (length ids) \<and>
      map_of (list_documents (remove_document (run ops) doc_id)) doc_id = None \<and>
      (\<forall>i\<in>set ids.
         i \<notin> chunk_keys (remove_document (run ops) doc_id) \<and>
         i \<notin> embedding_keys (remove_document (run ops) doc_id)) \<and>
      (\<forall>c\<in>snd ` set (idx_chunks (remove_document (run ops) doc_id)).
         c_doc_id c \<noteq> doc_id) \<and>
      (distinct ids \<and> set ids \<subseteq> chunk_keys (run ops) \<longrightarrow>
         total_chunks (remove_document (run ops) doc_id) + length ids
           = total_chunks (run ops)))"
proof (intro conjI allI impI)
  let ?s = "run ops"
  let ?s' = "remove_document ?s doc_id"
  have inv: "index_inv ?s" by (rule index_inv_run)
  have inv': "index_inv ?s'" using inv by (rule index_inv_remove)
  show "remove_document ?s doc_id = ?s" if "map_of (idx_doc_chunks ?s) doc_id = None"
    using that by (simp add: remove_document_def)
  fix ids assume known: "map_of (idx_doc_chunks ?s) doc_id = Some ids"
  have s': "?s' = (pop_chunks ?s ids)\<lparr>idx_doc_chunks := AList.delete doc_id (idx_doc_chunks ?s)\<rparr>"
    using known by (simp add: remove_document_def)
  have ck: "chunk_keys ?s' = chunk_keys ?s - set ids"
    unfolding s' using chunk_keys_pop[of ?s ids] by (simp add: chunk_keys_def)
  have ek: "embedding_keys ?s' = embedding_keys ?s - set ids"
    unfolding s' using embedding_keys_pop[of ?s ids] by (simp add: embedding_keys_def)
  show "map_of (list_documents ?s) doc_id = Some (length ids)"
    using known by (simp add: map_of_list_documents)
  show "map_of (list_documents ?s') doc_id = None"
    by (simp add: map_of_list_documents s' delete_conv')
  show "\<forall>i\<in>set ids. i \<notin> chunk_keys ?s' \<and> i \<notin> embedding_keys ?s'"
    using ck ek by simp
  show "\<forall>c\<in>snd ` set (idx_chunks ?s'). c_doc_id c \<noteq> doc_id"
  proof
    fix c assume "c \<in> snd ` set (idx_chunks ?s')"
    then obtain i where "(i, c) \<in> set (idx_chunks ?s')" by auto
    with inv' have "map_of (idx_chunks ?s') i = Some c" by (simp add: index_inv_def)
    with inv' obtain ids' where
      "map_of (idx_doc_chunks ?s') (c_doc_id c) = Some ids'"
      unfolding index_inv_def maps_inv_def by blast
    then show "c_doc_id c \<noteq> doc_id"
      by (auto simp: s' delete_conv')
  qed
  show "total_chunks ?s' + length ids = total_chunks ?s"
    if "distinct ids \<and> set ids \<subseteq> chunk_keys ?s"
  proof -
    from that have "set ids \<inter> chunk_keys ?s = set ids" by auto
    with that remove_document_total[OF known] show ?thesis by (simp add: distinct_card)
  qed
qed

theorem remove_document_effect_witness:
  "map_of (idx_doc_chunks (run
       [Add (stub_embed (0::int))
          [plain_chunk ''c1'' ''A'' ''x'', plain_chunk ''c2'' ''A'' ''y'',
             plain_chunk ''c3'' ''B'' ''z'']])) ''Z'' = None \<and>
   remove_document (run
       [Add (stub_embed (0::int))
          [plain_chunk ''c1'' ''A'' ''x'', plain_chunk ''c2'' ''A'' ''y'',
             plain_chunk ''c3'' ''B'' ''z'']]) ''Z''
     = run
       [Add (stub_embed (0::int))
          [plain_chunk ''c1'' ''A'' ''x'', plain_chunk ''c2'' ''A'' ''y'',
             plain_chunk ''c3'' ''B'' ''z'']] \<and>
   map_of (idx_doc_chunks (run
       [Add (stub_embed (0::int))
          [plain_chunk ''c1'' ''A'' ''x'', plain_chunk ''c2'' ''A'' ''y'',
             plain_chunk ''c3'' ''B'' ''z'']])) ''A'' = Some [''c1'', ''c2''] \<and>
   distinct [''c1'', ''c2''] \<and>
   set [''c1'', ''c2''] \<subseteq> chunk_keys (run
       [Add (stub_embed (0::int))
          [plain_chunk ''c1'' ''A'' ''x'', plain_chunk ''c2'' ''A'' ''y'',
             plain_chunk ''c3'' ''B'' ''z'']]) \<and>
   map_of (list_documents (run
       [Add (stub_embed (0::int))
          [plain_chunk ''c1'' ''A'' ''x'', plain_chunk ''c2'' ''A'' ''y'',
             plain_chunk ''c3'' ''B'' ''z'']])) ''A'' = Some 2 \<and>
   total_chunks (run
       [Add (stub_embed (0::int))
          [plain_chunk ''c1'' ''A'' ''x'', plain_chunk ''c2'' ''A'' ''y'',
             plain_chunk ''c3'' ''B'' ''z'']]) = 3 \<and>
   total_chunks (remove_document (run
       [Add (stub_embed (0::int))
          [plain_chunk ''c1'' ''A'' ''x'', plain_chunk ''c2'' ''A'' ''y'',
             plain_chunk ''c3'' ''B'' ''z'']]) ''A'') + 2 = 3"
proof -
  let ?ops = "[Add (stub_embed (0::int))
          [plain_chunk ''c1'' ''A'' ''x'', plain_chunk ''c2'' ''A'' ''y'',
             plain_chunk ''c3'' ''B'' ''z'']]"
  let ?s = "run ?ops"
  have z: "map_of (idx_doc_chunks ?s) ''Z'' = None" by code_simp
  have a: "map_of (idx_doc_chunks ?s) ''A'' = Some [''c1'', ''c2'']" by code_simp
  have k: "set [''c1'', ''c2''] \<subseteq> chunk_keys ?s" by code_simp
  have t: "total_chunks ?s = 3" by code_simp
  from remove_document_effect[of ?ops "''Z''"]
       remove_document_effect[of ?ops "''A''"] z a k t
  show ?thesis by simp
qed

subsection \<open>Search\<close>

lemma py_prefix_nonneg: "0 \<le> k \<Longrightarrow> py_prefix xs k = take (nat k) xs"
  by (auto simp: py_prefix_def py_slice_def slice_bound_def Let_def min_def)

lemma py_prefix_neg: "k < 0 \<Longrightarrow> py_prefix xs k = take (length xs - nat (- k)) xs"
proof -
  assume "k < 0"
  then have "nat (max 0 (k + int (length xs))) = length xs - nat (- k)" by auto
  with \<open>k < 0\<close> show ?thesis
    by (simp add: py_prefix_def py_slice_def slice_bound_def Let_def)
qed

lemma set_py_prefix: "set (py_prefix xs k) \<subseteq> set xs"
  by (cases "0 \<le> k") (auto simp: py_prefix_nonneg py_prefix_neg dest: in_set_takeD)

text \<open>On the floats other than NaN, \<open><=\<close> is the order of the ranks.\<close>

lemma rank_eq_iff: "rank x = rank y \<longleftrightarrow> x = y"
  by (cases x; cases y) simp_all

lemma fle_rank: "x \<noteq> NaN \<Longrightarrow> y \<noteq> NaN \<Longrightarrow> fle x y \<longleftrightarrow> rank x \<le> rank y"
  by (cases x; cases y) simp_all

lemma mset_sort_reverse: "mset (sort_reverse p xs) = mset xs"
  using Rep_permuter[of p] by (simp add: sort_reverse_def)

lemma length_sort_reverse: "length (sort_reverse p xs) = length xs"
  using mset_sort_reverse[of p xs] by (metis size_mset)

lemma set_sort_reverse: "set (sort_reverse p xs) = set xs"
  using mset_sort_reverse[of p xs] by (metis set_mset_mset)

lemma sorted_sort_reverse:
  assumes "NaN \<notin> set (map r_score xs)"
  shows "sorted_wrt (\<lambda>a b. fle (r_score b) (r_score a)) (sort_reverse p xs)"
proof -
  let ?key = "\<lambda>x. rank (r_score x)"
  let ?ys = "rev (sort_key ?key (rev xs))"
  have "sorted (map ?key (sort_key ?key (rev xs)))" by simp
  then have "sorted_wrt (\<lambda>a b. ?key a \<le> ?key b) (sort_key ?key (rev xs))"
    by (simp add: sorted_wrt_map)
  then have s: "sorted_wrt (\<lambda>a b. ?key b \<le> ?key a) ?ys"
    by (simp add: sorted_wrt_rev)
  have "set ?ys = set xs" by simp
  with assms have n: "\<forall>x\<in>set ?ys. r_score x \<noteq> NaN" by (metis image_eqI set_map)
  have "sorted_wrt (\<lambda>a b. fle (r_score b) (r_score a)) ?ys"
  proof (rule sorted_wrt_mono_rel[OF _ s])
    fix a b assume "a \<in> set ?ys" "b \<in> set ?ys" "?key b \<le> ?key a"
    with n show "fle (r_score b) (r_score a)" by (simp add: fle_rank)
  qed
  with assms show ?thesis by (simp add: sort_reverse_def)
qed

lemma stable_sort_reverse:
  assumes "NaN \<notin> set (map r_score xs)"
  shows "filter (\<lambda>x. r_score x = v) (sort_reverse p xs) = filter (\<lambda>x. r_score x = v) xs"
proof -
  let ?key = "\<lambda>x. rank (r_score x)"
  have "filter (\<lambda>x. ?key x = rank v) (sort_key ?key (rev xs))
      = filter (\<lambda>x. ?key x = rank v) (rev xs)"
    by (rule sort_key_stable)
  then have "filter (\<lambda>x. r_score x = v) (sort_key ?key (rev xs))
      = filter (\<lambda>x. r_score x = v) (rev xs)"
    by (simp only: rank_eq_iff)
  with assms show ?thesis by (simp add: sort_reverse_def rev_filter[symmetric])
qed

text \<open>A list of two or more floats with a NaN is not in descending order.\<close>

lemma nan_not_descending:
  assumes "NaN \<in> set (map key xs)" "2 \<le> length xs"
  shows "\<not> successively (\<lambda>a b. fle (key b) (key a)) xs"
proof
  assume s: "successively (\<lambda>a b. fle (key b) (key a)) xs"
  from assms(1) obtain i where i: "i < length xs" "key (xs ! i) = NaN"
    by (auto simp: in_set_conv_nth)
  show False
  proof (cases i)
    case 0
    with assms(2) have "Suc i < length xs" by simp
    with s have "fle (key (xs ! Suc i)) (key (xs ! i))"
      by (simp add: successively_conv_nth)
    with i show False by (cases "key (xs ! Suc i)") simp_all
  next
    case (Suc j)
    with i have "Suc j < length xs" by simp
    with s have "fle (key (xs ! Suc j)) (key (xs ! j))"
      by (simp add: successively_conv_nth)
    with i Suc show False by simp
  qed
qed

text \<open>
  When every id with an embedding has a chunk, scoring raises nothing: the results are
  the candidates that have an embedding, in their order.
\<close>

lemma score_candidates_total:
  assumes "dom (map_of (idx_embeddings s)) \<subseteq> dom (map_of (idx_chunks s))"
  shows "score_candidates r s q cands =
     Inr (map (\<lambda>i. \<lparr> r_chunk = the (map_of (idx_chunks s) i),
                      r_score = projr (cosine_similarity r q (the (map_of (idx_embeddings s) i))) \<rparr>)
            (filter (\<lambda>i. map_of (idx_embeddings s) i \<noteq> None) cands))"
proof (induction cands)
  case Nil
  show ?case by simp
next
  case (Cons i cands)
  show ?case
  proof (cases "map_of (idx_embeddings s) i")
    case None
    with Cons show ?thesis by simp
  next
    case (Some e)
    with assms obtain c where c: "map_of (idx_chunks s) i = Some c" by blast
    obtain f where "cosine_similarity r q e = Inr f"
      using cosine_similarity_total[of r q e] by blast
    with c Some Cons show ?thesis by simp
  qed
qed

text \<open>
  On an index that the calls have built, with a query that the embedding service
  answers, \<open>search\<close> returns: the scored candidates, sorted and cut.
\<close>

lemma search_run:
  assumes q: "embed_texts [query] search_query = Inr (qv # others)"
  shows "\<exists>results.
     score_candidates r (run ops) qv (candidate_ids (run ops) doc_id)
       = Inr results \<and>
     map r_chunk results =
       map (\<lambda>i. the (map_of (idx_chunks (run ops)) i))
         (filter (\<lambda>i. map_of (idx_embeddings (run ops)) i \<noteq> None)
            (candidate_ids (run ops) doc_id)) \<and>
     (\<forall>x\<in>set results. \<exists>i\<in>set (candidate_ids (run ops) doc_id).
         map_of (idx_chunks (run ops)) i = Some (r_chunk x)) \<and>
     search embed_texts r p (run ops) query doc_id top_k
       = Inr (py_prefix (sort_reverse p results) top_k)"
proof -
  let ?s = "run ops"
  let ?cands = "candidate_ids ?s doc_id"
  let ?results = "map (\<lambda>i. \<lparr> r_chunk = the (map_of (idx_chunks ?s) i),
                      r_score = projr (cosine_similarity r qv (the (map_of (idx_embeddings ?s) i))) \<rparr>)
            (filter (\<lambda>i. map_of (idx_embeddings ?s) i \<noteq> None) ?cands)"
  have "index_inv ?s" by (rule index_inv_run)
  then have d: "dom (map_of (idx_chunks ?s)) = dom (map_of (idx_embeddings ?s))"
    by (simp add: index_inv_def maps_inv_def)
  then have sc: "score_candidates r ?s qv ?cands = Inr ?results"
    by (intro score_candidates_total) simp
  have ch: "map r_chunk ?results =
       map (\<lambda>i. the (map_of (idx_chunks ?s) i))
         (filter (\<lambda>i. map_of (idx_embeddings ?s) i \<noteq> None) ?cands)"
    by (simp add: comp_def)
  have mem: "\<forall>x\<in>set ?results. \<exists>i\<in>set ?cands. map_of (idx_chunks ?s) i = Some (r_chunk x)"
  proof
    fix x assume "x \<in> set ?results"
    then obtain i where i: "i \<in> set ?cands" "map_of (idx_embeddings ?s) i \<noteq> None"
      "r_chunk x = the (map_of (idx_chunks ?s) i)" by auto
    with d have "map_of (idx_chunks ?s) i \<noteq> None" by blast
    with i show "\<exists>i\<in>set ?cands. map_of (idx_chunks ?s) i = Some (r_chunk x)" by auto
  qed
  have "search embed_texts r p ?s query doc_id top_k
       = Inr (py_prefix (sort_reverse p ?results) top_k)"
  proof (cases "?cands = []")
    case True
    then show ?thesis using q
      by (simp add: search_def sort_reverse_def py_prefix_def py_slice_def)
  next
    case False
    then show ?thesis using q sc by (simp add: search_def)
  qed
  with sc ch mem show ?thesis by blast
qed

subsection \<open>The examples\<close>

lemma to_float_plain_one: "to_float plain_rounding 1 = Finite 1"
  using exact_plain[of 1] by (simp add: exact_def)

lemma cosine_same_axis:
  "cosine_similarity plain_rounding [Finite 1, Finite 0] [Finite 1, Finite 0] = Inr (Finite 1)"
  by (simp add: cosine_similarity_def fsum_def to_float_zero to_float_plain_one)

lemma cosine_other_axis:
  "cosine_similarity plain_rounding [Finite 1, Finite 0] [Finite 0, Finite 1] = Inr (Finite 0)"
  by (simp add: cosine_similarity_def fsum_def to_float_zero to_float_plain_one)

lemma cosine_one:
  "cosine_similarity plain_rounding [Finite 1] [Finite 1] = Inr (Finite 1)"
  by (simp add: cosine_similarity_def fsum_def to_float_zero to_float_plain_one)

lemma cosine_overflow_one:
  "cosine_similarity plain_rounding [Finite big] [Finite 1] = Inr (Finite 0)"
proof -
  note sq = to_float_big_square[of plain_rounding]
  have "(2::real) ^ 700 < 2 ^ 1024" by (rule power_strict_increasing) simp_all
  then have "big < huge" unfolding big_def huge_def .
  moreover have "(1::real) \<le> 2 ^ 700" by (rule one_le_power) simp
  then have "1 \<le> big" unfolding big_def .
  ultimately have "to_float plain_rounding big = Finite big"
    using tiny_le_one by (intro to_float_plain) simp_all
  with sq show ?thesis
    by (simp add: cosine_similarity_def fsum_def to_float_zero to_float_plain_one)
qed

lemma sample_query: "table_embed sample_table [''q''] search_query = Inr [[Finite 1, Finite 0]]"
  by (simp add: table_embed_def sample_table_def)

lemma overflow_query: "table_embed overflow_table [''q''] search_query = Inr [[Finite big]]"
  by (simp add: table_embed_def overflow_table_def)

lemma run_sample:
  "run sample_ops =
     \<lparr> idx_chunks = [(''c1'', plain_chunk ''c1'' ''A'' ''aa''), (''c2'', plain_chunk ''c2'' ''A'' ''bbbb''),
                     (''c3'', plain_chunk ''c3'' ''B'' ''cc'')],
       idx_embeddings = [(''c1'', [Finite 0, Finite 1]), (''c2'', [Finite 1, Finite 0]),
                         (''c3'', [Finite 0, Finite 1])],
       idx_doc_chunks = [(''A'', [''c1'', ''c2'']), (''B'', [''c3''])] \<rparr>"
  by (simp add: run_def sample_ops_def apply_op_def add_chunks_def table_embed_def
      sample_table_def plain_chunk_def append_doc_chunk_def empty_index_def)

lemma run_overflow:
  "run overflow_ops =
     \<lparr> idx_chunks = [(''c1'', plain_chunk ''c1'' ''A'' ''x''), (''c2'', plain_chunk ''c2'' ''A'' ''y'')],
       idx_embeddings = [(''c1'', [Finite big]), (''c2'', [Finite 1])],
       idx_doc_chunks = [(''A'', [''c1'', ''c2''])] \<rparr>"
  by (simp add: run_def overflow_ops_def apply_op_def add_chunks_def table_embed_def
      overflow_table_def plain_chunk_def append_doc_chunk_def empty_index_def)

lemma sample_scores:
  "score_candidates plain_rounding (run sample_ops) [Finite 1, Finite 0]
     (candidate_ids (run sample_ops) None)
   = Inr [sample_result ''c1'' ''A'' ''aa'' (Finite 0), sample_result ''c2'' ''A'' ''bbbb'' (Finite 1),
          sample_result ''c3'' ''B'' ''cc'' (Finite 0)]"
  by (simp add: run_sample candidate_ids_def cosine_same_axis cosine_other_axis sample_result_def)

lemma sample_scores_A:
  "score_candidates plain_rounding (run sample_ops) [Finite 1, Finite 0]
     (candidate_ids (run sample_ops) (Some ''A''))
   = Inr [sample_result ''c1'' ''A'' ''aa'' (Finite 0), sample_result ''c2'' ''A'' ''bbbb'' (Finite 1)]"
  by (simp add: run_sample candidate_ids_def cosine_same_axis cosine_other_axis sample_result_def)

lemma overflow_scores:
  "score_candidates plain_rounding (run overflow_ops) [Finite big]
     (candidate_ids (run overflow_ops) None)
   = Inr [sample_result ''c1'' ''A'' ''x'' NaN, sample_result ''c2'' ''A'' ''y'' (Finite 0)]"
  by (simp add: run_overflow candidate_ids_def cosine_similarity_overflow cosine_overflow_one
      sample_result_def)

lemma sample_ranked:
  "sort_reverse p
     [sample_result ''c1'' ''A'' ''aa'' (Finite 0), sample_result ''c2'' ''A'' ''bbbb'' (Finite 1),
      sample_result ''c3'' ''B'' ''cc'' (Finite 0)]
   = [sample_result ''c2'' ''A'' ''bbbb'' (Finite 1), sample_result ''c1'' ''A'' ''aa'' (Finite 0),
      sample_result ''c3'' ''B'' ''cc'' (Finite 0)]"
  by (simp add: sort_reverse_def sample_result_def)

lemma sample_ranked_A:
  "sort_reverse p
     [sample_result ''c1'' ''A'' ''aa'' (Finite 0), sample_result ''c2'' ''A'' ''bbbb'' (Finite 1)]
   = [sample_result ''c2'' ''A'' ''bbbb'' (Finite 1), sample_result ''c1'' ''A'' ''aa'' (Finite 0)]"
  by (simp add: sort_reverse_def sample_result_def)

lemma sample_search:
  "search (table_embed sample_table) plain_rounding p (run sample_ops) ''q'' None k
     = Inr (py_prefix
         [sample_result ''c2'' ''A'' ''bbbb'' (Finite 1), sample_result ''c1'' ''A'' ''aa'' (Finite 0),
          sample_result ''c3'' ''B'' ''cc'' (Finite 0)] k)"
proof -
  have "candidate_ids (run sample_ops) None \<noteq> []" by (simp add: run_sample candidate_ids_def)
  then show ?thesis
    by (simp add: search_def sample_query sample_scores sample_ranked)
qed

lemma sample_search_all:
  "search (table_embed sample_table) plain_rounding p (run sample_ops) ''q'' None 5
     = Inr [sample_result ''c2'' ''A'' ''bbbb'' (Finite 1), sample_result ''c1'' ''A'' ''aa'' (Finite 0),
            sample_result ''c3'' ''B'' ''cc'' (Finite 0)]"
  by (simp add: sample_search py_prefix_nonneg)

lemma two_permutations:
  assumes "mset xs = mset [a, b]"
  shows "xs = [a, b] \<or> xs = [b, a]"
proof -
  from assms have "length xs = 2" by (metis length_Cons list.size(3) size_mset numeral_2_eq_2)
  then obtain u v where xs: "xs = [u, v]"
    by (metis (no_types) length_0_conv length_Suc_conv numeral_2_eq_2)
  with assms have "{#u, v#} = {#a, b#}" by simp
  then have "u = a \<and> v = b \<or> u = b \<and> v = a"
    by (auto simp: add_eq_conv_diff)
  with xs show ?thesis by auto
qed

subsection \<open>Ranking and truncation\<close>

text \<open>
  C7, as the claim states it, fails, in two ways. The first chunk of \<open>overflow_ops\<close> and
  the query have a vector whose square is no finite float, so the score of that chunk
  is NaN: whatever the sort does, the two results are not in descending order of score,
  NaN being neither above nor below 0. And with \<open>top_k = -1\<close> a search over three
  candidates returns two results, which is more than \<open>top_k\<close>.
\<close>

theorem search_not_descending_nor_at_most_top_k:
  "\<forall>p. (search (table_embed overflow_table) plain_rounding p (run overflow_ops) ''q'' None 5
           = Inr [sample_result ''c1'' ''A'' ''x'' NaN, sample_result ''c2'' ''A'' ''y'' (Finite 0)] \<or>
        search (table_embed overflow_table) plain_rounding p (run overflow_ops) ''q'' None 5
           = Inr [sample_result ''c2'' ''A'' ''y'' (Finite 0), sample_result ''c1'' ''A'' ''x'' NaN]) \<and>
       \<not> fle (Finite 0) NaN \<and> \<not> fle NaN (Finite 0) \<and>
       search (table_embed sample_table) plain_rounding p (run sample_ops) ''q'' None (- 1)
         = Inr [sample_result ''c2'' ''A'' ''bbbb'' (Finite 1),
                sample_result ''c1'' ''A'' ''aa'' (Finite 0)]"
proof
  fix p
  let ?a = "sample_result ''c1'' ''A'' ''x'' NaN"
  let ?b = "sample_result ''c2'' ''A'' ''y'' (Finite 0)"
  have "candidate_ids (run overflow_ops) None \<noteq> []"
    by (simp add: run_overflow candidate_ids_def)
  then have s: "search (table_embed overflow_table) plain_rounding p (run overflow_ops) ''q'' None 5
      = Inr (py_prefix (sort_reverse p [?a, ?b]) 5)"
    by (simp add: search_def overflow_query overflow_scores)
  have "sort_reverse p [?a, ?b] = [?a, ?b] \<or> sort_reverse p [?a, ?b] = [?b, ?a]"
    by (rule two_permutations) (rule mset_sort_reverse)
  then have "py_prefix (sort_reverse p [?a, ?b]) 5 = [?a, ?b] \<or>
      py_prefix (sort_reverse p [?a, ?b]) 5 = [?b, ?a]"
    by (auto simp: py_prefix_nonneg)
  with s have 1: "search (table_embed overflow_table) plain_rounding p (run overflow_ops) ''q'' None 5
           = Inr [?a, ?b] \<or>
        search (table_embed overflow_table) plain_rounding p (run overflow_ops) ''q'' None 5
           = Inr [?b, ?a]"
    by auto
  have 2: "search (table_embed sample_table) plain_rounding p (run sample_ops) ''q'' None (- 1)
         = Inr [sample_result ''c2'' ''A'' ''bbbb'' (Finite 1),
                sample_result ''c1'' ''A'' ''aa'' (Finite 0)]"
    by (simp add: sample_search py_prefix_neg)
  from 1 2 show "(search (table_embed overflow_table) plain_rounding p (run overflow_ops) ''q'' None 5
           = Inr [?a, ?b] \<or>
        search (table_embed overflow_table) plain_rounding p (run overflow_ops) ''q'' None 5
           = Inr [?b, ?a]) \<and>
       \<not> fle (Finite 0) NaN \<and> \<not> fle NaN (Finite 0) \<and>
       search (table_embed sample_table) plain_rounding p (run sample_ops) ''q'' None (- 1)
         = Inr [sample_result ''c2'' ''A'' ''bbbb'' (Finite 1),
                sample_result ''c1'' ''A'' ''aa'' (Finite 0)]"
    by simp
qed

text \<open>
  C7, amended: the results of \<open>search\<close> are a prefix of the sorted list of the scored
  candidates, which has the candidates, each as often as it was met. When no score is
  NaN the sorted list is in descending order of score and keeps the candidates of one
  score in the order they were met; when a score is NaN and there are two candidates or
  more, it is not in descending order. For \<open>top_k \<ge> 0\<close> the prefix has the first \<open>top_k\<close>
  entries, so at most \<open>top_k\<close>; for \<open>top_k\<close> at least the number of candidates it is the
  whole list.
\<close>

theorem search_ranked_and_truncated:
  assumes "embed_texts [query] search_query = Inr (qv # others)"
  shows "\<exists>results.
     score_candidates r (run ops) qv (candidate_ids (run ops) doc_id) = Inr results \<and>
     search embed_texts r p (run ops) query doc_id top_k
       = Inr (py_prefix (sort_reverse p results) top_k) \<and>
     mset (sort_reverse p results) = mset results \<and>
     (NaN \<notin> set (map r_score results) \<longrightarrow>
        sorted_wrt (\<lambda>a b. fle (r_score b) (r_score a)) (sort_reverse p results) \<and>
        (\<forall>v. filter (\<lambda>x. r_score x = v) (sort_reverse p results)
               = filter (\<lambda>x. r_score x = v) results)) \<and>
     (NaN \<in> set (map r_score results) \<and> 2 \<le> length results \<longrightarrow>
        \<not> successively (\<lambda>a b. fle (r_score b) (r_score a)) (sort_reverse p results)) \<and>
     (0 \<le> top_k \<longrightarrow>
        py_prefix (sort_reverse p results) top_k = take (nat top_k) (sort_reverse p results) \<and>
        int (length (py_prefix (sort_reverse p results) top_k)) \<le> top_k) \<and>
     (int (length results) \<le> top_k \<longrightarrow>
        py_prefix (sort_reverse p results) top_k = sort_reverse p results)"
proof -
  from search_run[of embed_texts query qv others r ops doc_id p top_k, OF assms]
  obtain results where
    sc: "score_candidates r (run ops) qv (candidate_ids (run ops) doc_id) = Inr results"
    and s: "search embed_texts r p (run ops) query doc_id top_k
       = Inr (py_prefix (sort_reverse p results) top_k)"
    by blast
  let ?ranked = "sort_reverse p results"
  have 1: "py_prefix ?ranked top_k = take (nat top_k) ?ranked \<and>
        int (length (py_prefix ?ranked top_k)) \<le> top_k" if "0 \<le> top_k"
    using that by (simp add: py_prefix_nonneg)
  have 2: "py_prefix ?ranked top_k = ?ranked" if "int (length results) \<le> top_k"
    using that by (simp add: py_prefix_nonneg length_sort_reverse)
  have 3: "\<not> successively (\<lambda>a b. fle (r_score b) (r_score a)) ?ranked"
    if "NaN \<in> set (map r_score results) \<and> 2 \<le> length results"
  proof (rule nan_not_descending)
    from that have "NaN \<in> r_score ` set results" by simp
    then show "NaN \<in> set (map r_score ?ranked)" by (simp add: set_sort_reverse)
    from that show "2 \<le> length ?ranked" by (simp add: length_sort_reverse)
  qed
  from sc s 1 2 3 mset_sort_reverse[of p results] sorted_sort_reverse[of results p]
    stable_sort_reverse[of results _ p]
  show ?thesis by blast
qed

theorem search_ranked_and_truncated_witness:
  "table_embed sample_table [''q''] search_query = Inr [[Finite 1, Finite 0]] \<and>
   score_candidates plain_rounding (run sample_ops) [Finite 1, Finite 0]
       (candidate_ids (run sample_ops) None)
     = Inr [sample_result ''c1'' ''A'' ''aa'' (Finite 0),
            sample_result ''c2'' ''A'' ''bbbb'' (Finite 1),
            sample_result ''c3'' ''B'' ''cc'' (Finite 0)] \<and>
   NaN \<notin> set [Finite 0, Finite 1, Finite 0] \<and>
   (0::int) \<le> 2 \<and>
   search (table_embed sample_table) plain_rounding keep_order (run sample_ops) ''q'' None 2
     = Inr [sample_result ''c2'' ''A'' ''bbbb'' (Finite 1),
            sample_result ''c1'' ''A'' ''aa'' (Finite 0)] \<and>
   search (table_embed sample_table) plain_rounding keep_order (run sample_ops) ''q'' None 5
     = Inr [sample_result ''c2'' ''A'' ''bbbb'' (Finite 1),
            sample_result ''c1'' ''A'' ''aa'' (Finite 0),
            sample_result ''c3'' ''B'' ''cc'' (Finite 0)] \<and>
   sorted_wrt (\<lambda>a b. fle (r_score b) (r_score a))
     [sample_result ''c2'' ''A'' ''bbbb'' (Finite 1),
      sample_result ''c1'' ''A'' ''aa'' (Finite 0),
      sample_result ''c3'' ''B'' ''cc'' (Finite 0)] \<and>
   table_embed overflow_table [''q''] search_query = Inr [[Finite big]] \<and>
   score_candidates plain_rounding (run overflow_ops) [Finite big]
       (candidate_ids (run overflow_ops) None)
     = Inr [sample_result ''c1'' ''A'' ''x'' NaN, sample_result ''c2'' ''A'' ''y'' (Finite 0)] \<and>
   NaN \<in> set [NaN, Finite 0] \<and>
   \<not> successively (\<lambda>a b. fle (r_score b) (r_score a))
       (sort_reverse keep_order
          [sample_result ''c1'' ''A'' ''x'' NaN, sample_result ''c2'' ''A'' ''y'' (Finite 0)])"
proof -
  have a: "search (table_embed sample_table) plain_rounding keep_order (run sample_ops) ''q'' None 2
     = Inr [sample_result ''c2'' ''A'' ''bbbb'' (Finite 1),
            sample_result ''c1'' ''A'' ''aa'' (Finite 0)]"
    by (simp add: sample_search py_prefix_nonneg)
  from search_ranked_and_truncated[of "table_embed sample_table" "''q''" "[Finite 1, Finite 0]" "[]"
      plain_rounding sample_ops None keep_order 5, OF sample_query]
  have b: "sorted_wrt (\<lambda>a b. fle (r_score b) (r_score a))
     [sample_result ''c2'' ''A'' ''bbbb'' (Finite 1),
      sample_result ''c1'' ''A'' ''aa'' (Finite 0),
      sample_result ''c3'' ''B'' ''cc'' (Finite 0)]"
    by (simp add: sample_scores sample_ranked sample_result_def)
  from search_ranked_and_truncated[of "table_embed overflow_table" "''q''" "[Finite big]" "[]"
      plain_rounding overflow_ops None keep_order 5, OF overflow_query]
  have c: "\<not> successively (\<lambda>a b. fle (r_score b) (r_score a))
       (sort_reverse keep_order
          [sample_result ''c1'' ''A'' ''x'' NaN, sample_result ''c2'' ''A'' ''y'' (Finite 0)])"
    by (simp add: overflow_scores sample_result_def)
  from a b c sample_query sample_scores sample_search_all[of keep_order] overflow_query
    overflow_scores
  show ?thesis by simp
qed

text \<open>
  C10: with \<open>top_k = 0\<close> \<open>search\<close> returns the empty list, and with a negative \<open>top_k\<close>
  it returns the sorted list of the scored candidates without its last \<open>-top_k\<close>
  entries. The sorted list is what \<open>search\<close> returns for every \<open>top_k\<close> that is at least
  the number of scored candidates; these are the candidates that have an embedding.
\<close>

theorem search_top_k_slice:
  assumes "embed_texts [query] search_query = Inr (qv # others)"
  shows "\<exists>results.
     score_candidates r (run ops) qv (candidate_ids (run ops) doc_id) = Inr results \<and>
     map r_chunk results =
       map (\<lambda>i. the (map_of (idx_chunks (run ops)) i))
         (filter (\<lambda>i. map_of (idx_embeddings (run ops)) i \<noteq> None)
            (candidate_ids (run ops) doc_id)) \<and>
     mset (sort_reverse p results) = mset results \<and>
     (\<forall>k. int (length results) \<le> k \<longrightarrow>
        search embed_texts r p (run ops) query doc_id k = Inr (sort_reverse p results)) \<and>
     search embed_texts r p (run ops) query doc_id 0 = Inr [] \<and>
     (\<forall>k<0. search embed_texts r p (run ops) query doc_id k
              = Inr (take (length results - nat (- k)) (sort_reverse p results)))"
proof -
  from search_run[of embed_texts query qv others r ops doc_id p 0, OF assms]
  obtain results where
    sc: "score_candidates r (run ops) qv (candidate_ids (run ops) doc_id) = Inr results"
    and ch: "map r_chunk results =
       map (\<lambda>i. the (map_of (idx_chunks (run ops)) i))
         (filter (\<lambda>i. map_of (idx_embeddings (run ops)) i \<noteq> None)
            (candidate_ids (run ops) doc_id))"
    by blast
  let ?ranked = "sort_reverse p results"
  have s: "search embed_texts r p (run ops) query doc_id k = Inr (py_prefix ?ranked k)" for k
    using search_run[of embed_texts query qv others r ops doc_id p k, OF assms] sc by auto
  have "search embed_texts r p (run ops) query doc_id k = Inr ?ranked"
    if "int (length results) \<le> k" for k
    using that by (simp add: s py_prefix_nonneg length_sort_reverse)
  moreover have "search embed_texts r p (run ops) query doc_id 0 = Inr []"
    by (simp add: s py_prefix_nonneg)
  moreover have "search embed_texts r p (run ops) query doc_id k
              = Inr (take (length results - nat (- k)) ?ranked)" if "k < 0" for k
    using that by (simp add: s py_prefix_neg length_sort_reverse)
  ultimately show ?thesis using sc ch mset_sort_reverse[of p results] by blast
qed

theorem search_top_k_slice_witness:
  "table_embed sample_table [''q''] search_query = Inr [[Finite 1, Finite 0]] \<and>
   score_candidates plain_rounding (run sample_ops) [Finite 1, Finite 0]
       (candidate_ids (run sample_ops) None)
     = Inr [sample_result ''c1'' ''A'' ''aa'' (Finite 0),
            sample_result ''c2'' ''A'' ''bbbb'' (Finite 1),
            sample_result ''c3'' ''B'' ''cc'' (Finite 0)] \<and>
   search (table_embed sample_table) plain_rounding keep_order (run sample_ops) ''q'' None 0 = Inr [] \<and>
   (- 1 :: int) < 0 \<and>
   search (table_embed sample_table) plain_rounding keep_order (run sample_ops) ''q'' None (- 1)
     = Inr [sample_result ''c2'' ''A'' ''bbbb'' (Finite 1),
            sample_result ''c1'' ''A'' ''aa'' (Finite 0)] \<and>
   int (length [sample_result ''c1'' ''A'' ''aa'' (Finite 0),
                sample_result ''c2'' ''A'' ''bbbb'' (Finite 1),
                sample_result ''c3'' ''B'' ''cc'' (Finite 0)]) \<le> 3 \<and>
   search (table_embed sample_table) plain_rounding keep_order (run sample_ops) ''q'' None 3
     = Inr [sample_result ''c2'' ''A'' ''bbbb'' (Finite 1),
            sample_result ''c1'' ''A'' ''aa'' (Finite 0),
            sample_result ''c3'' ''B'' ''cc'' (Finite 0)]"
proof -
  from search_top_k_slice[of "table_embed sample_table" "''q''" "[Finite 1, Finite 0]" "[]"
      plain_rounding sample_ops None keep_order, OF sample_query]
  have "search (table_embed sample_table) plain_rounding keep_order (run sample_ops) ''q'' None 0
          = Inr [] \<and>
        search (table_embed sample_table) plain_rounding keep_order (run sample_ops) ''q'' None (- 1)
          = Inr [sample_result ''c2'' ''A'' ''bbbb'' (Finite 1),
                 sample_result ''c1'' ''A'' ''aa'' (Finite 0)] \<and>
        search (table_embed sample_table) plain_rounding keep_order (run sample_ops) ''q'' None 3
          = Inr [sample_result ''c2'' ''A'' ''bbbb'' (Finite 1),
                 sample_result ''c1'' ''A'' ''aa'' (Finite 0),
                 sample_result ''c3'' ''B'' ''cc'' (Finite 0)]"
    by (simp add: sample_scores sample_ranked)
  with sample_query sample_scores show ?thesis by simp
qed

subsection \<open>Scoping\<close>

text \<open>
  C8, as the claim states it, fails: the empty string is a document id that the index
  knows, and a search scoped to it is not scoped: \<open>if doc_id and ...\<close> takes the empty
  string for no \<open>doc_id\<close>, and the result has the chunk of document \<open>B\<close>.
\<close>

theorem search_empty_doc_id_not_scoped:
  "map_of (idx_doc_chunks (run
      [Add (stub_embed [Finite 1])
         [plain_chunk ''c1'' '''' ''x'', plain_chunk ''c2'' ''B'' ''y'']])) ''''
     = Some [''c1''] \<and>
   search (stub_embed [Finite 1]) plain_rounding keep_order (run
      [Add (stub_embed [Finite 1])
         [plain_chunk ''c1'' '''' ''x'', plain_chunk ''c2'' ''B'' ''y'']]) ''q'' (Some '''') 5
     = Inr [\<lparr>r_chunk = plain_chunk ''c1'' '''' ''x'', r_score = Finite 1\<rparr>,
            \<lparr>r_chunk = plain_chunk ''c2'' ''B'' ''y'', r_score = Finite 1\<rparr>]"
proof -
  have r: "run [Add (stub_embed [Finite 1])
         [plain_chunk ''c1'' '''' ''x'', plain_chunk ''c2'' ''B'' ''y'']]
    = \<lparr> idx_chunks = [(''c1'', plain_chunk ''c1'' '''' ''x''), (''c2'', plain_chunk ''c2'' ''B'' ''y'')],
        idx_embeddings = [(''c1'', [Finite 1]), (''c2'', [Finite 1])],
        idx_doc_chunks = [('''', [''c1'']), (''B'', [''c2''])] \<rparr>"
    by (simp add: run_def apply_op_def add_chunks_def stub_embed_def plain_chunk_def
        append_doc_chunk_def empty_index_def)
  have q: "stub_embed [Finite 1] [''q''] search_query = Inr [[Finite 1]]"
    by (simp add: stub_embed_def)
  show ?thesis unfolding r
    by (simp add: search_def q candidate_ids_def cosine_one sort_reverse_def py_prefix_nonneg)
qed

text \<open>
  A search scoped to a document can return a chunk with another \<open>doc_id\<close>: the chunk
  stored last under an id that was added for both documents.
\<close>

lemma search_scoped_returns_other_doc:
  "search (stub_embed [Finite 1]) plain_rounding keep_order (run
      [Add (stub_embed [Finite 1]) [plain_chunk ''c1'' ''A'' ''x''],
       Add (stub_embed [Finite 1]) [plain_chunk ''c1'' ''B'' ''y'']]) ''q'' (Some ''A'') 5
     = Inr [\<lparr>r_chunk = plain_chunk ''c1'' ''B'' ''y'', r_score = Finite 1\<rparr>]"
proof -
  have r: "run [Add (stub_embed [Finite 1]) [plain_chunk ''c1'' ''A'' ''x''],
       Add (stub_embed [Finite 1]) [plain_chunk ''c1'' ''B'' ''y'']]
    = \<lparr> idx_chunks = [(''c1'', plain_chunk ''c1'' ''B'' ''y'')],
        idx_embeddings = [(''c1'', [Finite 1])],
        idx_doc_chunks = [(''A'', [''c1'']), (''B'', [''c1''])] \<rparr>"
    by (simp add: run_def apply_op_def add_chunks_def stub_embed_def plain_chunk_def
        append_doc_chunk_def empty_index_def)
  have q: "stub_embed [Finite 1] [''q''] search_query = Inr [[Finite 1]]"
    by (simp add: stub_embed_def)
  show ?thesis unfolding r
    by (simp add: search_def q candidate_ids_def cosine_one sort_reverse_def py_prefix_nonneg)
qed

text \<open>
  C8, amended: a search scoped to a \<open>doc_id\<close> that is not empty and that the index
  knows returns only chunks whose ids are in the list of that document, and these
  chunks have this \<open>doc_id\<close> when no chunk id was added under two document ids. A search
  with no \<open>doc_id\<close>, with the empty one or with one that the index does not know returns
  what the search over all chunks returns, and raises nothing.
\<close>

theorem search_scoping:
  assumes "embed_texts [query] search_query = Inr (qv # others)"
  shows "(\<forall>d ids. doc_id = Some d \<and> d \<noteq> [] \<and>
              map_of (idx_doc_chunks (run ops)) d = Some ids \<longrightarrow>
            (\<exists>rs. search embed_texts r p (run ops) query doc_id top_k = Inr rs \<and>
                  (\<forall>x\<in>set rs. c_id (r_chunk x) \<in> set ids \<and>
                               (ids_own_doc ops \<longrightarrow> c_doc_id (r_chunk x) = d)))) \<and>
         (doc_id = None \<or> doc_id = Some [] \<or>
            (\<exists>d. doc_id = Some d \<and> map_of (idx_doc_chunks (run ops)) d = None) \<longrightarrow>
            (\<exists>rs. search embed_texts r p (run ops) query doc_id top_k = Inr rs \<and>
                  search embed_texts r p (run ops) query None top_k = Inr rs))"
proof (intro conjI allI impI)
  let ?s = "run ops"
  have inv: "index_inv ?s" by (rule index_inv_run)
  {
    fix d ids
    assume a: "doc_id = Some d \<and> d \<noteq> [] \<and> map_of (idx_doc_chunks ?s) d = Some ids"
    then have cands: "candidate_ids ?s doc_id = ids" by (simp add: candidate_ids_def)
    from search_run[of embed_texts query qv others r ops doc_id p top_k, OF assms] cands
    obtain results where
      mem: "\<forall>x\<in>set results. \<exists>i\<in>set ids. map_of (idx_chunks ?s) i = Some (r_chunk x)"
      and s: "search embed_texts r p ?s query doc_id top_k
                = Inr (py_prefix (sort_reverse p results) top_k)"
      by auto
    have sub: "set (py_prefix (sort_reverse p results) top_k) \<subseteq> set results"
      using set_py_prefix[of "sort_reverse p results" top_k] by (simp add: set_sort_reverse)
    have "c_id (r_chunk x) \<in> set ids \<and> (ids_own_doc ops \<longrightarrow> c_doc_id (r_chunk x) = d)"
      if "x \<in> set (py_prefix (sort_reverse p results) top_k)" for x
    proof
      from that sub mem obtain i where i: "i \<in> set ids"
        "map_of (idx_chunks ?s) i = Some (r_chunk x)" by blast
      with inv have "c_id (r_chunk x) = i" unfolding index_inv_def maps_inv_def by blast
      with i show "c_id (r_chunk x) \<in> set ids" by simp
      show "ids_own_doc ops \<longrightarrow> c_doc_id (r_chunk x) = d"
      proof
        assume "ids_own_doc ops"
        then have o: "\<forall>c\<in>set (added ops). \<forall>c'\<in>set (added ops).
            c_id c = c_id c' \<longrightarrow> c_doc_id c = c_doc_id c'"
          unfolding ids_own_doc_def .
        have "listed_inv (set (added ops)) ?s"
          by (rule listed_inv_run[OF o subset_refl])
        with a i obtain c where "map_of (idx_chunks ?s) i = Some c" "c_doc_id c = d"
          unfolding listed_inv_def maps_listed_def by blast
        with i show "c_doc_id (r_chunk x) = d" by simp
      qed
    qed
    with s show "\<exists>rs. search embed_texts r p ?s query doc_id top_k = Inr rs \<and>
                  (\<forall>x\<in>set rs. c_id (r_chunk x) \<in> set ids \<and>
                               (ids_own_doc ops \<longrightarrow> c_doc_id (r_chunk x) = d))"
      by blast
  }
  {
    assume a: "doc_id = None \<or> doc_id = Some [] \<or>
            (\<exists>d. doc_id = Some d \<and> map_of (idx_doc_chunks ?s) d = None)"
    then have cands: "candidate_ids ?s doc_id = candidate_ids ?s None"
      by (auto simp: candidate_ids_def)
    from search_run[of embed_texts query qv others r ops doc_id p top_k, OF assms]
      search_run[of embed_texts query qv others r ops None p top_k, OF assms] cands
    show "\<exists>rs. search embed_texts r p ?s query doc_id top_k = Inr rs \<and>
                  search embed_texts r p ?s query None top_k = Inr rs"
      by auto
  }
qed

theorem search_scoping_witness:
  "table_embed sample_table [''q''] search_query = Inr [[Finite 1, Finite 0]] \<and>
   map_of (idx_doc_chunks (run sample_ops)) ''A'' = Some [''c1'', ''c2''] \<and>
   ids_own_doc sample_ops \<and>
   search (table_embed sample_table) plain_rounding keep_order (run sample_ops) ''q'' (Some ''A'') 5
     = Inr [sample_result ''c2'' ''A'' ''bbbb'' (Finite 1),
            sample_result ''c1'' ''A'' ''aa'' (Finite 0)] \<and>
   map_of (idx_doc_chunks (run sample_ops)) ''Z'' = None \<and>
   search (table_embed sample_table) plain_rounding keep_order (run sample_ops) ''q'' (Some ''Z'') 5
     = Inr [sample_result ''c2'' ''A'' ''bbbb'' (Finite 1),
            sample_result ''c1'' ''A'' ''aa'' (Finite 0),
            sample_result ''c3'' ''B'' ''cc'' (Finite 0)] \<and>
   search (table_embed sample_table) plain_rounding keep_order (run sample_ops) ''q'' None 5
     = Inr [sample_result ''c2'' ''A'' ''bbbb'' (Finite 1),
            sample_result ''c1'' ''A'' ''aa'' (Finite 0),
            sample_result ''c3'' ''B'' ''cc'' (Finite 0)]"
proof -
  have a: "map_of (idx_doc_chunks (run sample_ops)) ''A'' = Some [''c1'', ''c2'']"
    by (simp add: run_sample)
  have z: "map_of (idx_doc_chunks (run sample_ops)) ''Z'' = None"
    by (simp add: run_sample)
  have own: "ids_own_doc sample_ops"
    by (simp add: ids_own_doc_def sample_ops_def plain_chunk_def)
  have "candidate_ids (run sample_ops) (Some ''A'') \<noteq> []"
    by (simp add: run_sample candidate_ids_def)
  then have sa: "search (table_embed sample_table) plain_rounding keep_order (run sample_ops) ''q''
      (Some ''A'') 5
     = Inr [sample_result ''c2'' ''A'' ''bbbb'' (Finite 1),
            sample_result ''c1'' ''A'' ''aa'' (Finite 0)]"
    by (simp add: search_def sample_query sample_scores_A sample_ranked_A py_prefix_nonneg)
  from search_scoping[of "table_embed sample_table" "''q''" "[Finite 1, Finite 0]" "[]"
      "Some ''Z''" sample_ops plain_rounding keep_order 5, OF sample_query] z
  have "\<exists>rs. search (table_embed sample_table) plain_rounding keep_order (run sample_ops) ''q''
               (Some ''Z'') 5 = Inr rs \<and>
             search (table_embed sample_table) plain_rounding keep_order (run sample_ops) ''q''
               None 5 = Inr rs"
    by blast
  with sample_search_all[of keep_order]
  have sz: "search (table_embed sample_table) plain_rounding keep_order (run sample_ops) ''q''
      (Some ''Z'') 5
     = Inr [sample_result ''c2'' ''A'' ''bbbb'' (Finite 1),
            sample_result ''c1'' ''A'' ''aa'' (Finite 0),
            sample_result ''c3'' ''B'' ''cc'' (Finite 0)]"
    by auto
  from a z own sa sz sample_search_all[of keep_order] sample_query show ?thesis by simp
qed

end
